theory Spec2Isabelle
  imports Main "HOL-Library.Char_ord" "HOL-Library.List_Lexorder" "HOL-Library.AList"
    "HOL-Library.Sublist"
begin

section \<open>Python strings\<close>

text \<open>
  A Python \<open>str\<close> is modelled as a \<open>string\<close>; each \<open>char\<close> stands for the code point of the
  same number (0 to 255). \<open>is_space\<close> is \<open>str.isspace\<close> on one character, which is also the
  set that \<open>str.strip()\<close>, \<open>str.split()\<close> and the regular expression class \<open>\s\<close> use;
  \<open>is_linebreak\<close> is the set of line boundaries of \<open>str.splitlines()\<close>.
\<close>

definition is_space :: "char \<Rightarrow> bool" where
  "is_space c \<longleftrightarrow> c \<in> set [CHR 0x09, CHR 0x0A, CHR 0x0B, CHR 0x0C, CHR 0x0D,
     CHR 0x1C, CHR 0x1D, CHR 0x1E, CHR 0x1F, CHR 0x20, CHR 0x85, CHR 0xA0]"

definition is_linebreak :: "char \<Rightarrow> bool" where
  "is_linebreak c \<longleftrightarrow> c \<in> set [CHR 0x0A, CHR 0x0B, CHR 0x0C, CHR 0x0D,
     CHR 0x1C, CHR 0x1D, CHR 0x1E, CHR 0x85]"

definition lstrip :: "string \<Rightarrow> string" where
  "lstrip s = dropWhile is_space s"

definition rstrip :: "string \<Rightarrow> string" where
  "rstrip s = rev (dropWhile is_space (rev s))"

definition strip :: "string \<Rightarrow> string" where
  "strip s = rstrip (lstrip s)"

text \<open>\<open>str.splitlines()\<close>: the text is cut at every line boundary, \<open>\r\n\<close> counting as one; no
  empty last line is produced for a text that ends in a boundary.\<close>

function splitlines :: "string \<Rightarrow> string list" where
  "splitlines s =
     (if s = [] then []
      else (case dropWhile (\<lambda>c. \<not> is_linebreak c) s of
              [] \<Rightarrow> [s]
            | c # r \<Rightarrow> takeWhile (\<lambda>c. \<not> is_linebreak c) s
                       # splitlines (if c = CHR 0x0D \<and> r \<noteq> [] \<and> hd r = CHR 0x0A then tl r else r)))"
  by pat_completeness auto
termination
proof (relation "measure length")
  fix s :: string and c r
  assume "dropWhile (\<lambda>c. \<not> is_linebreak c) s = c # r"
  then have "length (c # r) \<le> length s"
    by (metis length_dropWhile_le)
  then show "(if c = CHR 0x0D \<and> r \<noteq> [] \<and> hd r = CHR 0x0A then tl r else r, s) \<in> measure length"
    by auto
qed simp

declare splitlines.simps [simp del]

text \<open>\<open>str.split()\<close> with no argument: the maximal runs of characters that are not white space.\<close>

function py_split :: "string \<Rightarrow> string list" where
  "py_split s =
     (case dropWhile is_space s of
        [] \<Rightarrow> []
      | c # r \<Rightarrow> takeWhile (\<lambda>c. \<not> is_space c) (c # r)
                 # py_split (dropWhile (\<lambda>c. \<not> is_space c) (c # r)))"
  by pat_completeness auto
termination
proof (relation "measure length")
  fix s :: string and c r
  assume "dropWhile is_space s = c # r"
  then have "length (c # r) \<le> length s"
    by (metis length_dropWhile_le)
  moreover have "\<not> is_space c"
    using \<open>dropWhile is_space s = c # r\<close> by (metis hd_dropWhile list.sel(1) list.distinct(1))
  ultimately show "(dropWhile (\<lambda>c. \<not> is_space c) (c # r), s) \<in> measure length"
    using length_dropWhile_le [of "\<lambda>c. \<not> is_space c" r] by simp
qed simp

declare py_split.simps [simp del]

text \<open>\<open>sep.join(xs)\<close>.\<close>

fun py_join :: "string \<Rightarrow> string list \<Rightarrow> string" where
  "py_join sep [] = []"
| "py_join sep [x] = x"
| "py_join sep (x # y # ys) = x @ sep @ py_join sep (y # ys)"

definition startswith :: "string \<Rightarrow> string \<Rightarrow> bool" where
  "startswith s p \<longleftrightarrow> take (length p) s = p"

text \<open>Reading a file in text mode translates \<open>\r\n\<close> and a lone \<open>\r\<close> to \<open>\n\<close> (universal
  newlines); writing on a POSIX system stores the text as it is.\<close>

fun universal_newlines :: "string \<Rightarrow> string" where
  "universal_newlines [] = []"
| "universal_newlines (c # cs) =
     (if c = CHR 0x0D then
        CHR 0x0A # universal_newlines (if cs \<noteq> [] \<and> hd cs = CHR 0x0A then tl cs else cs)
      else c # universal_newlines cs)"

section \<open>The file system under the project root\<close>

text \<open>
  The errors are the four conditions that the source reports through \<open>_fail\<close> (a missing
  \<open>.dsp\<close> directory, a missing entity, a missing reverse entry, a missing TOC file) and the two
  kinds of exception that its library calls can raise and that it does not catch.

  The state of the program is the directory tree below the project root. A directory is an
  association list from names to nodes; the first binding of a name is the entry of that name.
  A path is the list of its components below the project root, and \<open>p / name\<close> of pathlib is
  \<open>p @ [name]\<close>: the model covers names that are one path component (not empty, no \<open>/\<close>,
  neither \<open>.\<close> nor \<open>..\<close>).
\<close>

datatype node = File string | Dir "(string \<times> node) list"

type_synonym path = "string list"

datatype error =
    StoreUninitialized
  | EntityNotFound string
  | ReverseRecordNotFound
  | TocNotFound
  | OSError
  | ValueError

fun lookup :: "node \<Rightarrow> path \<Rightarrow> node option" where
  "lookup n [] = Some n"
| "lookup (File s) (c # cs) = None"
| "lookup (Dir es) (c # cs) = (case map_of es c of None \<Rightarrow> None | Some n \<Rightarrow> lookup n cs)"

definition path_exists :: "node \<Rightarrow> path \<Rightarrow> bool" where
  "path_exists fs p \<longleftrightarrow> lookup fs p \<noteq> None"

definition is_dir :: "node \<Rightarrow> path \<Rightarrow> bool" where
  "is_dir fs p \<longleftrightarrow> (case lookup fs p of Some (Dir es) \<Rightarrow> True | _ \<Rightarrow> False)"

definition is_file :: "node \<Rightarrow> path \<Rightarrow> bool" where
  "is_file fs p \<longleftrightarrow> (case lookup fs p of Some (File s) \<Rightarrow> True | _ \<Rightarrow> False)"

text \<open>\<open>Path.iterdir()\<close>: the names in a directory, each once (every call site checks
  \<open>is_dir\<close> first). The order is the operating system's; callers that depend on it sort.\<close>

definition iterdir :: "node \<Rightarrow> path \<Rightarrow> string list" where
  "iterdir fs p = (case lookup fs p of Some (Dir es) \<Rightarrow> remdups (map fst es) | _ \<Rightarrow> [])"

text \<open>\<open>Path.mkdir(parents=True, exist_ok=True)\<close>: raises when the path or one of its ancestors
  is a file, and then nothing has been created.\<close>

fun mkdir_p :: "path \<Rightarrow> node \<Rightarrow> error + node" where
  "mkdir_p [] (Dir es) = Inr (Dir es)"
| "mkdir_p [] (File s) = Inl OSError"
| "mkdir_p (c # cs) (File s) = Inl OSError"
| "mkdir_p (c # cs) (Dir es) =
     (case map_of es c of
        None \<Rightarrow> (case mkdir_p cs (Dir []) of
                   Inl e \<Rightarrow> Inl e
                 | Inr n \<Rightarrow> Inr (Dir (es @ [(c, n)])))
      | Some ch \<Rightarrow> (case mkdir_p cs ch of
                     Inl e \<Rightarrow> Inl e
                   | Inr n \<Rightarrow> Inr (Dir (AList.update c n es))))"

text \<open>\<open>Path.mkdir(parents=True)\<close>: as above, but an existing path is an error.\<close>

definition mkdir_new :: "path \<Rightarrow> node \<Rightarrow> error + node" where
  "mkdir_new p fs = (if path_exists fs p then Inl OSError else mkdir_p p fs)"

text \<open>\<open>Path.write_text(data)\<close>: the parent must be a directory and the path must not be one.\<close>

fun write_file :: "path \<Rightarrow> string \<Rightarrow> node \<Rightarrow> error + node" where
  "write_file [] s n = Inl OSError"
| "write_file (c # cs) s (File t) = Inl OSError"
| "write_file [c] s (Dir es) =
     (case map_of es c of
        Some (Dir ds) \<Rightarrow> Inl OSError
      | _ \<Rightarrow> Inr (Dir (AList.update c (File s) es)))"
| "write_file (c # d # cs) s (Dir es) =
     (case map_of es c of
        None \<Rightarrow> Inl OSError
      | Some ch \<Rightarrow> (case write_file (d # cs) s ch of
                     Inl e \<Rightarrow> Inl e
                   | Inr n \<Rightarrow> Inr (Dir (AList.update c n es))))"

text \<open>Removing the entry at a path (\<open>Path.unlink\<close> on a file, \<open>shutil.rmtree\<close> on a directory).\<close>

fun remove_entry :: "path \<Rightarrow> node \<Rightarrow> node" where
  "remove_entry [] n = n"
| "remove_entry (c # cs) (File s) = File s"
| "remove_entry [c] (Dir es) = Dir (AList.delete c es)"
| "remove_entry (c # d # cs) (Dir es) =
     (case map_of es c of
        None \<Rightarrow> Dir es
      | Some ch \<Rightarrow> Dir (AList.update c (remove_entry (d # cs) ch) es))"

text \<open>\<open>Path.read_text()\<close>.\<close>

definition read_text_raw :: "node \<Rightarrow> path \<Rightarrow> error + string" where
  "read_text_raw fs p =
     (case lookup fs p of Some (File s) \<Rightarrow> Inr (universal_newlines s) | _ \<Rightarrow> Inl OSError)"

section \<open>Low-level helpers\<close>

text \<open>
  A read returns \<open>error + 'a\<close>. A write that is one system call returns \<open>error + node\<close> (it
  either fails and changes nothing, or succeeds); a helper or an operation made of several
  writes returns a \<open>result\<close>, which on failure carries the tree as the failed run left it.
\<close>

datatype result = Ok node | Fail error node

definition step :: "node \<Rightarrow> error + node \<Rightarrow> (node \<Rightarrow> result) \<Rightarrow> result" where
  "step fs r k = (case r of Inl e \<Rightarrow> Fail e fs | Inr fs' \<Rightarrow> k fs')"

definition and_then :: "result \<Rightarrow> (node \<Rightarrow> result) \<Rightarrow> result" where
  "and_then r k = (case r of Fail e fs \<Rightarrow> Fail e fs | Ok fs \<Rightarrow> k fs)"

definition truthy :: "string option \<Rightarrow> bool" where
  "truthy v \<longleftrightarrow> (case v of None \<Rightarrow> False | Some s \<Rightarrow> s \<noteq> [])"

definition parse_import_line :: "string \<Rightarrow> string \<times> string option" where
  "parse_import_line line =
     (case py_split line of
        [] \<Rightarrow> ([], None)
      | uid # rest \<Rightarrow>
          (uid, fold (\<lambda>p via. if startswith p ''via='' then Some (drop 4 p) else via) rest None))"

definition format_import_line :: "string \<Rightarrow> string option \<Rightarrow> string" where
  "format_import_line uid via = (if truthy via then uid @ '' via='' @ the via else uid)"

definition read_lines :: "node \<Rightarrow> path \<Rightarrow> error + string list" where
  "read_lines fs p =
     (if \<not> path_exists fs p then Inr []
      else (case read_text_raw fs p of
              Inl e \<Rightarrow> Inl e
            | Inr t \<Rightarrow> Inr (map strip (filter (\<lambda>ln. strip ln \<noteq> []) (splitlines t)))))"

definition write_lines :: "node \<Rightarrow> path \<Rightarrow> string list \<Rightarrow> result" where
  "write_lines fs p lines =
     step fs (mkdir_p (butlast p) fs) (\<lambda>fs1.
     step fs1 (write_file p (py_join ''\<newline>'' lines @ (if lines \<noteq> [] then ''\<newline>'' else [])) fs1) Ok)"

definition append_line_unique :: "node \<Rightarrow> path \<Rightarrow> string \<Rightarrow> result" where
  "append_line_unique fs p line =
     step fs (mkdir_p (butlast p) fs) (\<lambda>fs1.
       (case read_lines fs1 p of
          Inl e \<Rightarrow> Fail e fs1
        | Inr existing \<Rightarrow>
            if line \<notin> set existing then write_lines fs1 p (existing @ [line]) else Ok fs1))"

text \<open>\<open>_remove_line_value\<close> returns whether a line was removed, next to the new tree.\<close>

definition remove_line_value :: "node \<Rightarrow> path \<Rightarrow> string \<Rightarrow> result \<times> bool" where
  "remove_line_value fs p target =
     (case read_lines fs p of
        Inl e \<Rightarrow> (Fail e fs, False)
      | Inr lines \<Rightarrow>
          (let new = filter (\<lambda>ln. ln \<noteq> target) lines
           in (write_lines fs p new, length new \<noteq> length lines)))"

definition read_text :: "node \<Rightarrow> path \<Rightarrow> error + string" where
  "read_text fs p =
     (if \<not> path_exists fs p then Inr []
      else (case read_text_raw fs p of Inl e \<Rightarrow> Inl e | Inr t \<Rightarrow> Inr (strip t)))"

definition write_text :: "node \<Rightarrow> path \<Rightarrow> string \<Rightarrow> result" where
  "write_text fs p text =
     step fs (mkdir_p (butlast p) fs) (\<lambda>fs1.
     step fs1 (write_file p (rstrip text @ ''\<newline>'') fs1) Ok)"

definition safe_unlink :: "node \<Rightarrow> path \<Rightarrow> node" where
  "safe_unlink fs p = (if path_exists fs p \<and> is_file fs p then remove_entry p fs else fs)"

definition safe_rmtree :: "node \<Rightarrow> path \<Rightarrow> node" where
  "safe_rmtree fs p = (if path_exists fs p \<and> is_dir fs p then remove_entry p fs else fs)"

section \<open>Description parsing and serialization\<close>

text \<open>
  A Python \<open>dict[str, str]\<close> is an association list with distinct keys, in insertion order:
  \<open>d[k] = v\<close> is \<open>AList.update k v d\<close> (an existing key keeps its place, a new key goes
  last), \<open>d.get(k, default)\<close> is \<open>dict_get\<close>.
\<close>

type_synonym dict = "(string \<times> string) list"

definition dict_get :: "dict \<Rightarrow> string \<Rightarrow> string \<Rightarrow> string" where
  "dict_get d k dflt = (case map_of d k of None \<Rightarrow> dflt | Some v \<Rightarrow> v)"

definition dict_update :: "dict \<Rightarrow> dict \<Rightarrow> dict" where
  "dict_update d fields = fold (\<lambda>(k, v) acc. AList.update k v acc) fields d"

definition is_key_char :: "char \<Rightarrow> bool" where
  "is_key_char c \<longleftrightarrow> c \<in> set ''abcdefghijklmnopqrstuvwxyz_''"

text \<open>\<open>_DESC_KEY_RE.match(raw)\<close> for \<open>^([a-z_]+):\s?(.*)\<close>: the two groups, if the line
  matches.\<close>

definition desc_key_match :: "string \<Rightarrow> (string \<times> string) option" where
  "desc_key_match raw =
     (let k = takeWhile is_key_char raw
      in if k = [] then None
         else (case dropWhile is_key_char raw of
                 [] \<Rightarrow> None
               | c # rest \<Rightarrow>
                   if c \<noteq> CHR '':'' then None
                   else Some (k, (case rest of
                                    [] \<Rightarrow> []
                                  | d # rest' \<Rightarrow> if is_space d then rest' else rest))))"

definition DESC_ORDERED :: "string list" where
  "DESC_ORDERED = [''source'', ''kind'', ''purpose'']"

definition flush_key :: "dict \<Rightarrow> string option \<Rightarrow> string list \<Rightarrow> dict" where
  "flush_key result cur_key cur_lines =
     (case cur_key of
        None \<Rightarrow> result
      | Some k \<Rightarrow> AList.update k (strip (py_join ''\<newline>'' cur_lines)) result)"

fun parse_desc_loop :: "string list \<Rightarrow> dict \<Rightarrow> string option \<Rightarrow> string list \<Rightarrow> dict" where
  "parse_desc_loop [] result cur_key cur_lines = flush_key result cur_key cur_lines"
| "parse_desc_loop (raw # rest) result cur_key cur_lines =
     (case desc_key_match raw of
        Some (k, v) \<Rightarrow> parse_desc_loop rest (flush_key result cur_key cur_lines) (Some k) [v]
      | None \<Rightarrow>
          if cur_key \<noteq> None then parse_desc_loop rest result cur_key (cur_lines @ [raw])
          else parse_desc_loop rest result cur_key cur_lines)"

definition parse_desc :: "string \<Rightarrow> dict" where
  "parse_desc text = parse_desc_loop (splitlines text) [] None []"

definition serialize_desc :: "dict \<Rightarrow> string" where
  "serialize_desc fields =
     py_join ''\<newline>''
       (map (\<lambda>k. k @ '': '' @ the (map_of fields k)) (filter (\<lambda>k. k \<in> fst ` set fields) DESC_ORDERED)
        @ map (\<lambda>(k, v). k @ '': '' @ v) (filter (\<lambda>(k, v). k \<notin> set DESC_ORDERED) fields))"

section \<open>Store\<close>

definition base :: path where
  "base = [''.dsp'']"

definition DESC_FILE :: string where
  "DESC_FILE = ''description''"

definition ensure_init :: "node \<Rightarrow> bool" where
  "ensure_init fs \<longleftrightarrow> is_dir fs base"

definition entity_exists :: "node \<Rightarrow> string \<Rightarrow> bool" where
  "entity_exists fs uid \<longleftrightarrow> is_dir fs (base @ [uid])"

definition all_uids :: "node \<Rightarrow> string list" where
  "all_uids fs =
     (if \<not> is_dir fs base then []
      else sort (filter (\<lambda>d. is_dir fs (base @ [d]) \<and> (startswith d ''obj-'' \<or> startswith d ''func-''))
                  (iterdir fs base)))"

definition toc_path :: "string option \<Rightarrow> path" where
  "toc_path root_uid = (if truthy root_uid then base @ [''TOC-'' @ the root_uid] else base @ [''TOC''])"

definition all_toc_paths :: "node \<Rightarrow> path list" where
  "all_toc_paths fs =
     (if \<not> is_dir fs base then []
      else map (\<lambda>n. base @ [n])
             (sort (filter (\<lambda>n. is_file fs (base @ [n]) \<and> startswith n ''TOC'') (iterdir fs base))))"

definition desc_path :: "string \<Rightarrow> path" where
  "desc_path uid = base @ [uid, DESC_FILE]"

definition read_desc :: "node \<Rightarrow> string \<Rightarrow> error + dict" where
  "read_desc fs uid = (case read_text fs (desc_path uid) of Inl e \<Rightarrow> Inl e | Inr t \<Rightarrow> Inr (parse_desc t))"

definition write_desc :: "node \<Rightarrow> string \<Rightarrow> dict \<Rightarrow> result" where
  "write_desc fs uid fields = write_text fs (desc_path uid) (serialize_desc fields)"

definition imports_path :: "string \<Rightarrow> path" where
  "imports_path uid = base @ [uid, ''imports'']"

definition read_imports :: "node \<Rightarrow> string \<Rightarrow> error + (string \<times> string option) list" where
  "read_imports fs uid =
     (case read_lines fs (imports_path uid) of
        Inl e \<Rightarrow> Inl e
      | Inr lns \<Rightarrow> Inr (map parse_import_line (filter (\<lambda>ln. ln \<noteq> []) lns)))"

definition read_import_uids :: "node \<Rightarrow> string \<Rightarrow> error + string list" where
  "read_import_uids fs uid =
     (case read_imports fs uid of
        Inl e \<Rightarrow> Inl e
      | Inr imps \<Rightarrow> Inr (filter (\<lambda>u. u \<noteq> []) (map fst imps)))"

definition shared_path :: "string \<Rightarrow> path" where
  "shared_path uid = base @ [uid, ''shared'']"

definition read_shared :: "node \<Rightarrow> string \<Rightarrow> error + string list" where
  "read_shared fs uid = read_lines fs (shared_path uid)"

definition exports_dir :: "string \<Rightarrow> path" where
  "exports_dir uid = base @ [uid, ''exports'']"

text \<open>\<open>[(f.name, _read_text(f)) for f in files]\<close>, stopping at the first read that raises.\<close>

fun read_records :: "node \<Rightarrow> path \<Rightarrow> string list \<Rightarrow> error + (string \<times> string) list" where
  "read_records fs d [] = Inr []"
| "read_records fs d (f # fs') =
     (case read_text fs (d @ [f]) of
        Inl e \<Rightarrow> Inl e
      | Inr t \<Rightarrow> (case read_records fs d fs' of Inl e \<Rightarrow> Inl e | Inr rs \<Rightarrow> Inr ((f, t) # rs)))"

definition read_direct_recipients :: "node \<Rightarrow> string \<Rightarrow> error + (string \<times> string) list" where
  "read_direct_recipients fs uid =
     (let d = exports_dir uid
      in if \<not> is_dir fs d then Inr []
         else read_records fs d (filter (\<lambda>e. is_file fs (d @ [e])) (sort (iterdir fs d))))"

text \<open>The recipient files of a shared sub-collection: \<open>f.is_file() and f.name != DESC_FILE\<close>
  over \<open>sorted(sub.iterdir())\<close>.\<close>

definition recipient_files :: "node \<Rightarrow> path \<Rightarrow> string list" where
  "recipient_files fs sub = filter (\<lambda>f. is_file fs (sub @ [f]) \<and> f \<noteq> DESC_FILE) (sort (iterdir fs sub))"

section \<open>Engine: mutation operations\<close>

text \<open>\<open>_gen_uid\<close>; the eight hexadecimal digits of the random UUID are a parameter.\<close>

definition gen_uid :: "string \<Rightarrow> string \<Rightarrow> string" where
  "gen_uid kind hex = (if kind = ''function'' then ''func'' else ''obj'') @ ''-'' @ hex"

definition create_object ::
  "node \<Rightarrow> string \<Rightarrow> string \<Rightarrow> string \<Rightarrow> string \<Rightarrow> string option \<Rightarrow> result" where
  "create_object fs hex source purpose kind toc =
     (if \<not> ensure_init fs then Fail StoreUninitialized fs
      else
        let uid = gen_uid ''object'' hex in
        step fs (mkdir_new (base @ [uid]) fs) (\<lambda>fs1.
        and_then (write_desc fs1 uid [(''source'', source), (''kind'', kind), (''purpose'', purpose)]) (\<lambda>fs2.
        and_then (write_lines fs2 (imports_path uid) []) (\<lambda>fs3.
        and_then (write_lines fs3 (shared_path uid) []) (\<lambda>fs4.
        append_line_unique fs4 (toc_path toc) uid)))))"

definition create_function ::
  "node \<Rightarrow> string \<Rightarrow> string \<Rightarrow> string \<Rightarrow> string option \<Rightarrow> string option \<Rightarrow> result" where
  "create_function fs hex source purpose owner toc =
     (if \<not> ensure_init fs then Fail StoreUninitialized fs
      else
        let uid = gen_uid ''function'' hex in
        step fs (mkdir_new (base @ [uid]) fs) (\<lambda>fs1.
        and_then (write_desc fs1 uid [(''source'', source), (''kind'', ''function''), (''purpose'', purpose)]) (\<lambda>fs2.
        and_then (write_lines fs2 (imports_path uid) []) (\<lambda>fs3.
        and_then
          (if truthy owner then
             (if \<not> entity_exists fs3 (the owner) then Fail (EntityNotFound (the owner)) fs3
              else
                and_then (append_line_unique fs3 (imports_path (the owner)) uid) (\<lambda>fs4.
                step fs4 (mkdir_p (exports_dir uid) fs4) (\<lambda>fs5.
                write_text fs5 (exports_dir uid @ [the owner]) ''owner: method/member of this object'')))
           else Ok fs3) (\<lambda>fs6.
        append_line_unique fs6 (toc_path toc) uid)))))"

fun create_shared_loop :: "node \<Rightarrow> string \<Rightarrow> string list \<Rightarrow> result" where
  "create_shared_loop fs exporter [] = Ok fs"
| "create_shared_loop fs exporter (sid # rest) =
     and_then (append_line_unique fs (shared_path exporter) sid) (\<lambda>fs1.
     let shared_sub = exports_dir exporter @ [sid] in
     step fs1 (mkdir_p shared_sub fs1) (\<lambda>fs2.
     and_then
       (if \<not> path_exists fs2 (shared_sub @ [DESC_FILE]) then
          (case (if entity_exists fs2 sid
                 then (case read_desc fs2 sid of Inl e \<Rightarrow> Inl e | Inr d \<Rightarrow> Inr (dict_get d ''purpose'' []))
                 else Inr []) of
             Inl e \<Rightarrow> Fail e fs2
           | Inr purpose \<Rightarrow>
               write_text fs2 (shared_sub @ [DESC_FILE]) (if purpose \<noteq> [] then purpose else sid))
        else Ok fs2) (\<lambda>fs3.
     create_shared_loop fs3 exporter rest)))"

definition create_shared :: "node \<Rightarrow> string \<Rightarrow> string list \<Rightarrow> result" where
  "create_shared fs exporter shared_uids =
     (if \<not> ensure_init fs then Fail StoreUninitialized fs
      else if \<not> entity_exists fs exporter then Fail (EntityNotFound exporter) fs
      else step fs (mkdir_p (exports_dir exporter) fs) (\<lambda>fs1.
           create_shared_loop fs1 exporter shared_uids))"

definition add_import :: "node \<Rightarrow> string \<Rightarrow> string \<Rightarrow> string \<Rightarrow> string option \<Rightarrow> result" where
  "add_import fs importer imported why exporter =
     (if \<not> ensure_init fs then Fail StoreUninitialized fs
      else if \<not> entity_exists fs importer then Fail (EntityNotFound importer) fs
      else
        and_then (append_line_unique fs (imports_path importer) (format_import_line imported exporter)) (\<lambda>fs1.
        if truthy exporter then
          (if \<not> entity_exists fs1 (the exporter) then Fail (EntityNotFound (the exporter)) fs1
           else
             let rev_dir = exports_dir (the exporter) @ [imported] in
             step fs1 (mkdir_p rev_dir fs1) (\<lambda>fs2.
             write_text fs2 (rev_dir @ [importer]) why))
        else
          (if \<not> entity_exists fs1 imported then Fail (EntityNotFound imported) fs1
           else
             step fs1 (mkdir_p (exports_dir imported) fs1) (\<lambda>fs2.
             write_text fs2 (exports_dir imported @ [importer]) why))))"

definition update_description :: "node \<Rightarrow> string \<Rightarrow> dict \<Rightarrow> result" where
  "update_description fs uid fields =
     (if \<not> ensure_init fs then Fail StoreUninitialized fs
      else if \<not> entity_exists fs uid then Fail (EntityNotFound uid) fs
      else (case read_desc fs uid of
              Inl e \<Rightarrow> Fail e fs
            | Inr current \<Rightarrow> write_desc fs uid (dict_update current fields)))"

definition update_import_why :: "node \<Rightarrow> string \<Rightarrow> string \<Rightarrow> string \<Rightarrow> string option \<Rightarrow> result" where
  "update_import_why fs importer imported new_why exporter =
     (if \<not> ensure_init fs then Fail StoreUninitialized fs
      else
        let p = (if truthy exporter then exports_dir (the exporter) @ [imported, importer]
                 else exports_dir imported @ [importer])
        in if \<not> path_exists fs p then Fail ReverseRecordNotFound fs
           else write_text fs p new_why)"

definition move_entity :: "node \<Rightarrow> string \<Rightarrow> string \<Rightarrow> result" where
  "move_entity fs uid new_source =
     (if \<not> ensure_init fs then Fail StoreUninitialized fs
      else if \<not> entity_exists fs uid then Fail (EntityNotFound uid) fs
      else (case read_desc fs uid of
              Inl e \<Rightarrow> Fail e fs
            | Inr desc \<Rightarrow> write_desc fs uid (AList.update ''source'' new_source desc)))"

text \<open>The loop of \<open>remove_import\<close> over the importer's edges; the flag is \<open>removed\<close>.\<close>

fun remove_import_loop ::
  "string \<Rightarrow> string option \<Rightarrow> (string \<times> string option) list \<Rightarrow> bool \<Rightarrow> string list" where
  "remove_import_loop imported exporter [] removed = []"
| "remove_import_loop imported exporter ((imp_uid, imp_via) # rest) removed =
     (if imp_uid = imported \<and> \<not> removed \<and> (exporter = None \<or> imp_via = exporter)
      then remove_import_loop imported exporter rest True
      else format_import_line imp_uid imp_via # remove_import_loop imported exporter rest removed)"

definition remove_import :: "node \<Rightarrow> string \<Rightarrow> string \<Rightarrow> string option \<Rightarrow> result" where
  "remove_import fs importer imported exporter =
     (if \<not> ensure_init fs then Fail StoreUninitialized fs
      else if \<not> entity_exists fs importer then Fail (EntityNotFound importer) fs
      else (case read_imports fs importer of
              Inl e \<Rightarrow> Fail e fs
            | Inr imports \<Rightarrow>
                and_then (write_lines fs (imports_path importer)
                            (remove_import_loop imported exporter imports False)) (\<lambda>fs1.
                if truthy exporter
                then Ok (safe_unlink fs1 (exports_dir (the exporter) @ [imported, importer]))
                else Ok (safe_unlink fs1 (exports_dir imported @ [importer])))))"

fun strip_recipients :: "node \<Rightarrow> string \<Rightarrow> string \<Rightarrow> string list \<Rightarrow> result" where
  "strip_recipients fs exporter shared_uid [] = Ok fs"
| "strip_recipients fs exporter shared_uid (entry # rest) =
     (if is_file fs (exports_dir exporter @ [shared_uid, entry]) \<and> entry \<noteq> DESC_FILE
         \<and> entity_exists fs entry
      then (case read_imports fs entry of
              Inl e \<Rightarrow> Fail e fs
            | Inr imports \<Rightarrow>
                and_then (write_lines fs (imports_path entry)
                            (map (\<lambda>(u, v). format_import_line u v)
                               (filter (\<lambda>(u, v). \<not> (u = shared_uid \<and> v = Some exporter)) imports))) (\<lambda>fs1.
                strip_recipients fs1 exporter shared_uid rest))
      else strip_recipients fs exporter shared_uid rest)"

definition remove_shared :: "node \<Rightarrow> string \<Rightarrow> string \<Rightarrow> result" where
  "remove_shared fs exporter shared_uid =
     (if \<not> ensure_init fs then Fail StoreUninitialized fs
      else if \<not> entity_exists fs exporter then Fail (EntityNotFound exporter) fs
      else
        and_then (fst (remove_line_value fs (shared_path exporter) shared_uid)) (\<lambda>fs1.
        let shared_dir = exports_dir exporter @ [shared_uid] in
        if is_dir fs1 shared_dir
        then and_then (strip_recipients fs1 exporter shared_uid (iterdir fs1 shared_dir)) (\<lambda>fs2.
             Ok (safe_rmtree fs2 shared_dir))
        else Ok fs1))"

text \<open>The four loops of \<open>remove_entity\<close>, in the order of the source.\<close>

fun strip_edges :: "node \<Rightarrow> string \<Rightarrow> string list \<Rightarrow> result" where
  "strip_edges fs uid [] = Ok fs"
| "strip_edges fs uid (other # rest) =
     (if other = uid then strip_edges fs uid rest
      else (case read_imports fs other of
              Inl e \<Rightarrow> Fail e fs
            | Inr imports \<Rightarrow>
                if list_ex (\<lambda>(u, v). u = uid \<or> v = Some uid) imports
                then and_then (write_lines fs (imports_path other)
                                 (map (\<lambda>(u, v). format_import_line u v)
                                    (filter (\<lambda>(u, v). u \<noteq> uid \<and> v \<noteq> Some uid) imports))) (\<lambda>fs1.
                     strip_edges fs1 uid rest)
                else strip_edges fs uid rest))"

fun unlink_reverse :: "node \<Rightarrow> string \<Rightarrow> (string \<times> string option) list \<Rightarrow> node" where
  "unlink_reverse fs uid [] = fs"
| "unlink_reverse fs uid ((imp_uid, imp_via) # rest) =
     unlink_reverse
       (if truthy imp_via then safe_unlink fs (exports_dir (the imp_via) @ [imp_uid, uid])
        else safe_unlink fs (exports_dir imp_uid @ [uid]))
       uid rest"

fun strip_shared :: "node \<Rightarrow> string \<Rightarrow> string list \<Rightarrow> result" where
  "strip_shared fs uid [] = Ok fs"
| "strip_shared fs uid (other # rest) =
     (if other = uid then strip_shared fs uid rest
      else (case read_shared fs other of
              Inl e \<Rightarrow> Fail e fs
            | Inr shared \<Rightarrow>
                if uid \<in> set shared
                then and_then (fst (remove_line_value fs (shared_path other) uid)) (\<lambda>fs1.
                     strip_shared (safe_rmtree fs1 (exports_dir other @ [uid])) uid rest)
                else strip_shared fs uid rest))"

fun strip_tocs :: "node \<Rightarrow> string \<Rightarrow> path list \<Rightarrow> result" where
  "strip_tocs fs uid [] = Ok fs"
| "strip_tocs fs uid (toc # rest) =
     and_then (fst (remove_line_value fs toc uid)) (\<lambda>fs1. strip_tocs fs1 uid rest)"

definition remove_entity :: "node \<Rightarrow> string \<Rightarrow> result" where
  "remove_entity fs uid =
     (if \<not> ensure_init fs then Fail StoreUninitialized fs
      else if \<not> entity_exists fs uid then Fail (EntityNotFound uid) fs
      else
        let uids = all_uids fs in
        and_then (strip_edges fs uid uids) (\<lambda>fs1.
        (case read_imports fs1 uid of
           Inl e \<Rightarrow> Fail e fs1
         | Inr own \<Rightarrow>
             and_then (strip_shared (unlink_reverse fs1 uid own) uid uids) (\<lambda>fs2.
             and_then (strip_tocs fs2 uid (all_toc_paths fs2)) (\<lambda>fs3.
             Ok (safe_rmtree fs3 (base @ [uid])))))))"

section \<open>Engine: query operations\<close>

text \<open>The three passes of \<open>_all_importers\<close>; the accumulator is the pair of \<open>seen\<close> and
  \<open>result\<close>.\<close>

type_synonym importers_acc = "string set \<times> (string \<times> string) list"

fun pass_direct :: "(string \<times> string) list \<Rightarrow> importers_acc \<Rightarrow> importers_acc" where
  "pass_direct [] acc = acc"
| "pass_direct ((rec_uid, why) # rest) (seen, result) =
     (if rec_uid \<notin> seen then pass_direct rest (insert rec_uid seen, result @ [(rec_uid, why)])
      else pass_direct rest (seen, result))"

fun shared_recs :: "node \<Rightarrow> path \<Rightarrow> string list \<Rightarrow> importers_acc \<Rightarrow> error + importers_acc" where
  "shared_recs fs sub [] acc = Inr acc"
| "shared_recs fs sub (f # rest) (seen, result) =
     (if is_file fs (sub @ [f]) \<and> f \<noteq> DESC_FILE \<and> f \<notin> seen
      then (case read_text fs (sub @ [f]) of
              Inl e \<Rightarrow> Inl e
            | Inr t \<Rightarrow> shared_recs fs sub rest (insert f seen, result @ [(f, t)]))
      else shared_recs fs sub rest (seen, result))"

fun pass_shared :: "node \<Rightarrow> string \<Rightarrow> string list \<Rightarrow> importers_acc \<Rightarrow> error + importers_acc" where
  "pass_shared fs uid [] acc = Inr acc"
| "pass_shared fs uid (other # rest) acc =
     (case read_shared fs other of
        Inl e \<Rightarrow> Inl e
      | Inr shared \<Rightarrow>
          if uid \<in> set shared \<and> is_dir fs (exports_dir other @ [uid])
          then (case shared_recs fs (exports_dir other @ [uid])
                       (sort (iterdir fs (exports_dir other @ [uid]))) acc of
                  Inl e \<Rightarrow> Inl e
                | Inr acc' \<Rightarrow> pass_shared fs uid rest acc')
          else pass_shared fs uid rest acc)"

fun pass_scan :: "node \<Rightarrow> string \<Rightarrow> string list \<Rightarrow> importers_acc \<Rightarrow> error + importers_acc" where
  "pass_scan fs uid [] acc = Inr acc"
| "pass_scan fs uid (other # rest) (seen, result) =
     (if other \<in> seen then pass_scan fs uid rest (seen, result)
      else (case read_imports fs other of
              Inl e \<Rightarrow> Inl e
            | Inr imps \<Rightarrow>
                if uid \<in> set (map fst imps)
                then pass_scan fs uid rest (insert other seen, result @ [(other, [])])
                else pass_scan fs uid rest (seen, result)))"

definition all_importers :: "node \<Rightarrow> string \<Rightarrow> error + (string \<times> string) list" where
  "all_importers fs uid =
     (case read_direct_recipients fs uid of
        Inl e \<Rightarrow> Inl e
      | Inr direct \<Rightarrow>
          (case pass_shared fs uid (all_uids fs) (pass_direct direct ({}, [])) of
             Inl e \<Rightarrow> Inl e
           | Inr acc \<Rightarrow>
               (case pass_scan fs uid (all_uids fs) acc of
                  Inl e \<Rightarrow> Inl e
                | Inr (seen, result) \<Rightarrow> Inr result)))"

definition get_recipients :: "node \<Rightarrow> string \<Rightarrow> error + (string \<times> string) list" where
  "get_recipients fs uid =
     (if \<not> ensure_init fs then Inl StoreUninitialized
      else if \<not> entity_exists fs uid then Inl (EntityNotFound uid)
      else all_importers fs uid)"

record entity_info =
  e_uid :: string
  e_description :: dict
  e_imports :: "(string \<times> string option) list"
  e_shared :: "string list"
  e_exported_to :: "(string \<times> string) list"

definition get_entity :: "node \<Rightarrow> string \<Rightarrow> error + entity_info" where
  "get_entity fs uid =
     (if \<not> ensure_init fs then Inl StoreUninitialized
      else if \<not> entity_exists fs uid then Inl (EntityNotFound uid)
      else (case read_desc fs uid of Inl e \<Rightarrow> Inl e | Inr desc \<Rightarrow>
           (case read_imports fs uid of Inl e \<Rightarrow> Inl e | Inr imports \<Rightarrow>
           (case read_shared fs uid of Inl e \<Rightarrow> Inl e | Inr shared \<Rightarrow>
           (case all_importers fs uid of Inl e \<Rightarrow> Inl e | Inr recipients \<Rightarrow>
              Inr \<lparr>e_uid = uid, e_description = desc, e_imports = imports,
                   e_shared = shared, e_exported_to = recipients\<rparr>)))))"

text \<open>
  The node dictionaries of \<open>get_children\<close> and \<open>get_parents\<close>: \<open>n_sub\<close> is the list under the
  key \<open>children\<close> (or \<open>parents\<close>), \<open>n_cycle\<close> says whether the key \<open>cycle\<close> is set, and \<open>n_why\<close>
  is the key \<open>why\<close> that \<open>get_parents\<close> sets on every node but the root.
\<close>

datatype tnode =
  TNode (n_uid: string) (n_kind: string) (n_purpose: string) (n_sub: "tnode list")
    (n_cycle: bool) (n_why: "string option")

definition node_desc :: "node \<Rightarrow> string \<Rightarrow> error + dict" where
  "node_desc fs u = (if entity_exists fs u then read_desc fs u else Inr [])"

fun walk_children :: "node \<Rightarrow> nat \<Rightarrow> string \<Rightarrow> string set \<Rightarrow> error + tnode \<times> string set"
  and walk_children_list ::
    "node \<Rightarrow> nat \<Rightarrow> string list \<Rightarrow> string set \<Rightarrow> error + tnode list \<times> string set" where
  "walk_children fs d u visited =
     (case node_desc fs u of
        Inl e \<Rightarrow> Inl e
      | Inr desc \<Rightarrow>
          if u \<in> visited
          then Inr (TNode u (dict_get desc ''kind'' []) (dict_get desc ''purpose'' []) [] True None, visited)
          else (case d of
                  0 \<Rightarrow> Inr (TNode u (dict_get desc ''kind'' []) (dict_get desc ''purpose'' []) [] False None,
                            insert u visited)
                | Suc d' \<Rightarrow>
                    (case read_imports fs u of
                       Inl e \<Rightarrow> Inl e
                     | Inr imps \<Rightarrow>
                         (case walk_children_list fs d' (map fst imps) (insert u visited) of
                            Inl e \<Rightarrow> Inl e
                          | Inr (sub, visited') \<Rightarrow>
                              Inr (TNode u (dict_get desc ''kind'' []) (dict_get desc ''purpose'' [])
                                     sub False None, visited')))))"
| "walk_children_list fs d [] visited = Inr ([], visited)"
| "walk_children_list fs d (imp_uid # rest) visited =
     (case walk_children fs d imp_uid visited of
        Inl e \<Rightarrow> Inl e
      | Inr (n, visited1) \<Rightarrow>
          (case walk_children_list fs d rest visited1 of
             Inl e \<Rightarrow> Inl e
           | Inr (ns, visited2) \<Rightarrow> Inr (n # ns, visited2)))"

definition get_children :: "node \<Rightarrow> string \<Rightarrow> int \<Rightarrow> error + tnode" where
  "get_children fs uid depth =
     (if \<not> ensure_init fs then Inl StoreUninitialized
      else if \<not> entity_exists fs uid then Inl (EntityNotFound uid)
      else (case walk_children fs (nat depth) uid {} of Inl e \<Rightarrow> Inl e | Inr (n, visited) \<Rightarrow> Inr n))"

fun walk_parents ::
    "node \<Rightarrow> nat \<Rightarrow> string \<Rightarrow> string option \<Rightarrow> string set \<Rightarrow> error + tnode \<times> string set"
  and walk_parents_list ::
    "node \<Rightarrow> nat \<Rightarrow> (string \<times> string) list \<Rightarrow> string set \<Rightarrow> error + tnode list \<times> string set" where
  "walk_parents fs d u why visited =
     (case node_desc fs u of
        Inl e \<Rightarrow> Inl e
      | Inr desc \<Rightarrow>
          if u \<in> visited
          then Inr (TNode u (dict_get desc ''kind'' []) (dict_get desc ''purpose'' []) [] True why, visited)
          else (case d of
                  0 \<Rightarrow> Inr (TNode u (dict_get desc ''kind'' []) (dict_get desc ''purpose'' []) [] False why,
                            insert u visited)
                | Suc d' \<Rightarrow>
                    (case all_importers fs u of
                       Inl e \<Rightarrow> Inl e
                     | Inr recs \<Rightarrow>
                         (case walk_parents_list fs d' recs (insert u visited) of
                            Inl e \<Rightarrow> Inl e
                          | Inr (sub, visited') \<Rightarrow>
                              Inr (TNode u (dict_get desc ''kind'' []) (dict_get desc ''purpose'' [])
                                     sub False why, visited')))))"
| "walk_parents_list fs d [] visited = Inr ([], visited)"
| "walk_parents_list fs d ((rec_uid, why) # rest) visited =
     (case walk_parents fs d rec_uid (Some why) visited of
        Inl e \<Rightarrow> Inl e
      | Inr (n, visited1) \<Rightarrow>
          (case walk_parents_list fs d rest visited1 of
             Inl e \<Rightarrow> Inl e
           | Inr (ns, visited2) \<Rightarrow> Inr (n # ns, visited2)))"

definition get_parents :: "node \<Rightarrow> string \<Rightarrow> int \<Rightarrow> error + tnode" where
  "get_parents fs uid depth =
     (if \<not> ensure_init fs then Inl StoreUninitialized
      else if \<not> entity_exists fs uid then Inl (EntityNotFound uid)
      else (case walk_parents fs (nat depth) uid None {} of
              Inl e \<Rightarrow> Inl e
            | Inr (n, visited) \<Rightarrow> Inr n))"

text \<open>
  \<open>detect_cycles\<close>. The state of the search is the dictionary \<open>color\<close>, the list
  \<open>path_stack\<close> and the list \<open>cycles\<close>. The recursion of \<open>dfs\<close> is not structural; the first
  argument bounds its depth, and \<open>None\<close> is the result of a run that would go deeper.
\<close>

definition WHITE :: int where "WHITE = 0"
definition GRAY :: int where "GRAY = 1"
definition BLACK :: int where "BLACK = 2"

record dfs_state =
  color :: "string \<Rightarrow> int option"
  path_stack :: "string list"
  cycles :: "string list list"

fun dfs :: "nat \<Rightarrow> node \<Rightarrow> string \<Rightarrow> dfs_state \<Rightarrow> (error + dfs_state) option"
  and dfs_loop :: "nat \<Rightarrow> node \<Rightarrow> string list \<Rightarrow> dfs_state \<Rightarrow> (error + dfs_state) option" where
  "dfs 0 fs u st = None"
| "dfs (Suc n) fs u st =
     (let st1 = st\<lparr>color := (color st)(u \<mapsto> GRAY), path_stack := path_stack st @ [u]\<rparr>
      in (case read_import_uids fs u of
            Inl e \<Rightarrow> Some (Inl e)
          | Inr imps \<Rightarrow>
              (case dfs_loop n fs imps st1 of
                 None \<Rightarrow> None
               | Some (Inl e) \<Rightarrow> Some (Inl e)
               | Some (Inr st2) \<Rightarrow>
                   Some (Inr (st2\<lparr>path_stack := butlast (path_stack st2),
                                   color := (color st2)(u \<mapsto> BLACK)\<rparr>)))))"
| "dfs_loop n fs [] st = Some (Inr st)"
| "dfs_loop n fs (imp_uid # rest) st =
     (let c = (case color st imp_uid of None \<Rightarrow> - 1 | Some c \<Rightarrow> c)
      in if c = GRAY then
           (if imp_uid \<in> set (path_stack st)
            then dfs_loop n fs rest
                   (st\<lparr>cycles := cycles st
                          @ [dropWhile (\<lambda>x. x \<noteq> imp_uid) (path_stack st) @ [imp_uid]]\<rparr>)
            else Some (Inl ValueError))
         else if c = WHITE then
           (case dfs n fs imp_uid st of
              None \<Rightarrow> None
            | Some (Inl e) \<Rightarrow> Some (Inl e)
            | Some (Inr st') \<Rightarrow> dfs_loop n fs rest st')
         else dfs_loop n fs rest st)"

fun dfs_all :: "nat \<Rightarrow> node \<Rightarrow> string list \<Rightarrow> dfs_state \<Rightarrow> (error + dfs_state) option" where
  "dfs_all n fs [] st = Some (Inr st)"
| "dfs_all n fs (u # rest) st =
     (if color st u = Some WHITE then
        (case dfs n fs u st of
           None \<Rightarrow> None
         | Some (Inl e) \<Rightarrow> Some (Inl e)
         | Some (Inr st') \<Rightarrow> dfs_all n fs rest st')
      else dfs_all n fs rest st)"

definition init_dfs_state :: "string list \<Rightarrow> dfs_state" where
  "init_dfs_state uids =
     \<lparr>color = fold (\<lambda>u c. c(u \<mapsto> WHITE)) uids Map.empty, path_stack = [], cycles = []\<rparr>"

definition detect_cycles :: "node \<Rightarrow> (error + string list list) option" where
  "detect_cycles fs =
     (if \<not> ensure_init fs then Some (Inl StoreUninitialized)
      else (case dfs_all (length (all_uids fs)) fs (all_uids fs) (init_dfs_state (all_uids fs)) of
              None \<Rightarrow> None
            | Some (Inl e) \<Rightarrow> Some (Inl e)
            | Some (Inr st) \<Rightarrow> Some (Inr (cycles st))))"

text \<open>\<open>get_orphans\<close>: the set \<open>roots\<close>, the set \<open>imported_uids\<close>, and the final loop.\<close>

fun toc_roots :: "node \<Rightarrow> path list \<Rightarrow> error + string set" where
  "toc_roots fs [] = Inr {}"
| "toc_roots fs (toc # rest) =
     (case read_lines fs toc of
        Inl e \<Rightarrow> Inl e
      | Inr lines \<Rightarrow>
          (case toc_roots fs rest of
             Inl e \<Rightarrow> Inl e
           | Inr roots \<Rightarrow> Inr (if lines \<noteq> [] then insert (hd lines) roots else roots)))"

definition edge_refs :: "(string \<times> string option) list \<Rightarrow> string set" where
  "edge_refs imps =
     set (filter (\<lambda>u. u \<noteq> []) (map fst imps))
     \<union> set (map (\<lambda>(u, v). the v) (filter (\<lambda>(u, v). truthy v) imps))"

fun imported_uids :: "node \<Rightarrow> string list \<Rightarrow> error + string set" where
  "imported_uids fs [] = Inr {}"
| "imported_uids fs (uid # rest) =
     (case read_imports fs uid of
        Inl e \<Rightarrow> Inl e
      | Inr imps \<Rightarrow>
          (case imported_uids fs rest of
             Inl e \<Rightarrow> Inl e
           | Inr refs \<Rightarrow> Inr (edge_refs imps \<union> refs)))"

definition get_orphans :: "node \<Rightarrow> error + string list" where
  "get_orphans fs =
     (if \<not> ensure_init fs then Inl StoreUninitialized
      else (case toc_roots fs (all_toc_paths fs) of
              Inl e \<Rightarrow> Inl e
            | Inr roots \<Rightarrow>
                (case imported_uids fs (all_uids fs) of
                   Inl e \<Rightarrow> Inl e
                 | Inr imported \<Rightarrow>
                     Inr (filter (\<lambda>uid. uid \<notin> roots \<and> uid \<notin> imported
                                    \<and> \<not> (is_dir fs (exports_dir uid) \<and> iterdir fs (exports_dir uid) \<noteq> []))
                            (all_uids fs)))))"

section \<open>What a path holds, and how the primitives change it\<close>

text \<open>
  Every read of the program depends on the tree only through what each path holds: nothing, a
  file with its content, or a directory. The three primitives that change the tree are
  characterised by their effect on that.
\<close>

datatype kind = Absent | IsFile string | IsDir

definition kind :: "node \<Rightarrow> path \<Rightarrow> kind" where
  "kind fs p = (case lookup fs p of None \<Rightarrow> Absent | Some (File s) \<Rightarrow> IsFile s | Some (Dir es) \<Rightarrow> IsDir)"

lemma lookup_append:
  "lookup fs (p @ q) = (case lookup fs p of None \<Rightarrow> None | Some n \<Rightarrow> lookup n q)"
proof (induction fs p rule: lookup.induct)
  case (1 n)
  show ?case by simp
next
  case (2 s c cs)
  show ?case by simp
next
  case (3 es c cs)
  then show ?case by (cases "map_of es c") auto
qed

lemma path_exists_kind: "path_exists fs p \<longleftrightarrow> kind fs p \<noteq> Absent"
  by (auto simp: path_exists_def kind_def split: option.splits node.splits)

lemma is_dir_kind: "is_dir fs p \<longleftrightarrow> kind fs p = IsDir"
  by (auto simp: is_dir_def kind_def split: option.splits node.splits)

lemma is_file_kind: "is_file fs p \<longleftrightarrow> (\<exists>s. kind fs p = IsFile s)"
  by (auto simp: is_file_def kind_def split: option.splits node.splits)

lemma read_text_raw_kind:
  "read_text_raw fs p = (case kind fs p of IsFile s \<Rightarrow> Inr (universal_newlines s) | _ \<Rightarrow> Inl OSError)"
  by (auto simp: read_text_raw_def kind_def split: option.splits node.splits)

lemma kind_Nil: "kind fs [] = (case fs of File s \<Rightarrow> IsFile s | Dir es \<Rightarrow> IsDir)"
  by (simp add: kind_def split: node.splits)

lemma kind_Cons_File: "kind (File s) (c # cs) = Absent"
  by (simp add: kind_def)

lemma kind_Cons_Dir:
  "kind (Dir es) (c # cs) = (case map_of es c of None \<Rightarrow> Absent | Some n \<Rightarrow> kind n cs)"
  by (simp add: kind_def split: option.splits)

lemma kind_below_not_dir: "kind fs p \<noteq> IsDir \<Longrightarrow> q \<noteq> [] \<Longrightarrow> kind fs (p @ q) = Absent"
  by (cases q) (auto simp: kind_def lookup_append split: option.splits node.splits)

lemma mem_iterdir: "c \<in> set (iterdir fs p) \<longleftrightarrow> kind fs p = IsDir \<and> kind fs (p @ [c]) \<noteq> Absent"
proof (cases "lookup fs p")
  case None
  then show ?thesis by (simp add: iterdir_def kind_def)
next
  case (Some n)
  show ?thesis
  proof (cases n)
    case (File s)
    with Some show ?thesis by (simp add: iterdir_def kind_def)
  next
    case (Dir es)
    have "c \<in> fst ` set es \<longleftrightarrow> map_of es c \<noteq> None"
      by (simp add: map_of_eq_None_iff)
    with Some Dir show ?thesis
      by (auto simp: iterdir_def kind_def lookup_append split: option.splits node.splits)
  qed
qed

lemma distinct_iterdir: "distinct (iterdir fs p)"
  by (simp add: iterdir_def split: option.splits node.splits)

lemma kind_remove_entry:
  "kind (remove_entry p fs) q = (if p \<noteq> [] \<and> prefix p q then Absent else kind fs q)"
proof (induction p fs arbitrary: q rule: remove_entry.induct)
  case (1 n)
  show ?case by simp
next
  case (2 c cs s)
  show ?case by (cases q) (auto simp: kind_Cons_File kind_Nil)
next
  case (3 c es)
  show ?case
    by (cases q) (auto simp: kind_Cons_Dir kind_Nil delete_conv split: option.splits)
next
  case (4 c d cs es)
  show ?case
  proof (cases "map_of es c")
    case None
    then show ?thesis
      by (cases q) (auto simp: kind_Cons_Dir kind_Nil split: option.splits)
  next
    case (Some ch)
    with 4 show ?thesis
      by (cases q) (auto simp: kind_Cons_Dir kind_Nil update_conv split: option.splits)
  qed
qed

lemma kind_mkdir_p:
  "mkdir_p p fs = Inr fs' \<Longrightarrow> kind fs' q = (if prefix q p then IsDir else kind fs q)"
proof (induction p fs arbitrary: fs' q rule: mkdir_p.induct)
  case (1 es)
  then show ?case by (auto simp: kind_Nil)
next
  case (2 s)
  then show ?case by simp
next
  case (3 c cs s)
  then show ?case by simp
next
  case (4 c cs es)
  show ?case
  proof (cases "map_of es c")
    case None
    with 4 obtain n where n: "mkdir_p cs (Dir []) = Inr n" and fs': "fs' = Dir (es @ [(c, n)])"
      by (auto split: sum.splits)
    have k: "kind n r = (if prefix r cs then IsDir else kind (Dir []) r)" for r
      using "4.IH"(1) [OF None n] .
    have e: "kind (Dir []) r = (if r = [] then IsDir else Absent)" for r
      by (cases r) (auto simp: kind_Nil kind_Cons_Dir)
    show ?thesis
      using None k e by (cases q) (auto simp: fs' kind_Cons_Dir kind_Nil map_add_def split: option.splits)
  next
    case (Some ch)
    with 4 obtain n where n: "mkdir_p cs ch = Inr n" and fs': "fs' = Dir (AList.update c n es)"
      by (auto split: sum.splits)
    have k: "kind n r = (if prefix r cs then IsDir else kind ch r)" for r
      using "4.IH"(2) [OF Some n] .
    show ?thesis
      using Some k by (cases q) (auto simp: fs' kind_Cons_Dir kind_Nil update_conv split: option.splits)
  qed
qed

lemma mkdir_p_ok:
  "(\<exists>fs'. mkdir_p p fs = Inr fs') \<longleftrightarrow> (\<forall>q. prefix q p \<longrightarrow> (\<forall>s. kind fs q \<noteq> IsFile s))"
proof (induction p fs rule: mkdir_p.induct)
  case (1 es)
  then show ?case by (auto simp: kind_Nil)
next
  case (2 s)
  then show ?case by (auto simp: kind_Nil)
next
  case (3 c cs s)
  then show ?case by (auto simp: kind_Nil intro: exI [of _ "[]"])
next
  case (4 c cs es)
  show ?case
  proof (cases "map_of es c")
    case None
    have e: "kind (Dir []) r = (if r = [] then IsDir else Absent)" for r
      by (cases r) (auto simp: kind_Nil kind_Cons_Dir)
    have "\<exists>n. mkdir_p cs (Dir []) = Inr n"
      using "4.IH"(1) [OF None] e by auto
    moreover have "kind (Dir es) q \<noteq> IsFile s" if "prefix q (c # cs)" for q s
      using that None by (cases q) (auto simp: kind_Nil kind_Cons_Dir)
    ultimately show ?thesis using None by (auto split: sum.splits)
  next
    case (Some ch)
    have "(\<forall>q. prefix q (c # cs) \<longrightarrow> (\<forall>s. kind (Dir es) q \<noteq> IsFile s))
       \<longleftrightarrow> (\<forall>q. prefix q cs \<longrightarrow> (\<forall>s. kind ch q \<noteq> IsFile s))"
    proof
      assume l: "\<forall>q. prefix q (c # cs) \<longrightarrow> (\<forall>s. kind (Dir es) q \<noteq> IsFile s)"
      show "\<forall>q. prefix q cs \<longrightarrow> (\<forall>s. kind ch q \<noteq> IsFile s)"
      proof (intro allI impI)
        fix q s assume "prefix q cs"
        then have "prefix (c # q) (c # cs)" by simp
        with l have "kind (Dir es) (c # q) \<noteq> IsFile s" by blast
        with Some show "kind ch q \<noteq> IsFile s" by (simp add: kind_Cons_Dir)
      qed
    next
      assume r: "\<forall>q. prefix q cs \<longrightarrow> (\<forall>s. kind ch q \<noteq> IsFile s)"
      show "\<forall>q. prefix q (c # cs) \<longrightarrow> (\<forall>s. kind (Dir es) q \<noteq> IsFile s)"
      proof (intro allI impI)
        fix q s assume "prefix q (c # cs)"
        then show "kind (Dir es) q \<noteq> IsFile s"
          using r Some by (cases q) (auto simp: kind_Nil kind_Cons_Dir)
      qed
    qed
    with "4.IH"(2) [OF Some] Some show ?thesis by (auto split: sum.splits)
  qed
qed

lemma kind_write_file:
  "write_file p s fs = Inr fs' \<Longrightarrow> kind fs' q = (if q = p then IsFile s else kind fs q)"
proof (induction p s fs arbitrary: fs' q rule: write_file.induct)
  case (1 s n)
  then show ?case by simp
next
  case (2 c cs s t)
  then show ?case by simp
next
  case (3 c s es)
  then have fs': "fs' = Dir (AList.update c (File s) es)" and nd: "\<And>ds. map_of es c \<noteq> Some (Dir ds)"
    by (auto split: option.splits node.splits)
  show ?case
  proof (cases q)
    case Nil
    then show ?thesis by (simp add: fs' kind_Nil)
  next
    case (Cons a r)
    show ?thesis
    proof (cases "a = c")
      case True
      show ?thesis
      proof (cases r)
        case Nil
        with True Cons show ?thesis by (simp add: fs' kind_Cons_Dir update_conv kind_Nil)
      next
        case (Cons b r')
        have "kind (Dir es) (c # b # r') = Absent"
        proof (cases "map_of es c")
          case None
          then show ?thesis by (simp add: kind_Cons_Dir)
        next
          case (Some x)
          with nd obtain t where "x = File t" by (cases x) auto
          with Some show ?thesis by (simp add: kind_Cons_Dir kind_Cons_File)
        qed
        with True Cons \<open>q = a # r\<close> show ?thesis
          by (simp add: fs' kind_Cons_Dir update_conv kind_Cons_File)
      qed
    next
      case False
      with Cons show ?thesis by (simp add: fs' kind_Cons_Dir update_conv)
    qed
  qed
next
  case (4 c d cs s es)
  then obtain ch n where ch: "map_of es c = Some ch" and n: "write_file (d # cs) s ch = Inr n"
    and fs': "fs' = Dir (AList.update c n es)"
    by (auto split: option.splits sum.splits)
  have k: "kind n r = (if r = d # cs then IsFile s else kind ch r)" for r
    using "4.IH" [OF ch n] .
  show ?case
    using ch k by (cases q) (auto simp: fs' kind_Cons_Dir kind_Nil update_conv)
qed

lemma write_file_ok:
  "(\<exists>fs'. write_file p s fs = Inr fs') \<longleftrightarrow> p \<noteq> [] \<and> kind fs (butlast p) = IsDir \<and> kind fs p \<noteq> IsDir"
proof (induction p s fs rule: write_file.induct)
  case (1 s n)
  then show ?case by simp
next
  case (2 c cs s t)
  then show ?case by (cases cs) (auto simp: kind_Nil kind_Cons_File)
next
  case (3 c s es)
  then show ?case
    by (auto simp: kind_Nil kind_Cons_Dir split: option.splits node.splits)
next
  case (4 c d cs s es)
  show ?case
  proof (cases "map_of es c")
    case None
    then show ?thesis by (auto simp: kind_Cons_Dir)
  next
    case (Some ch)
    with "4.IH" [OF Some] show ?thesis
      by (auto simp: kind_Cons_Dir split: sum.splits)
  qed
qed

definition state_of :: "result \<Rightarrow> node" where
  "state_of r = (case r of Ok fs \<Rightarrow> fs | Fail e fs \<Rightarrow> fs)"

definition lines_text :: "string list \<Rightarrow> string" where
  "lines_text lines = py_join ''\<newline>'' lines @ (if lines \<noteq> [] then ''\<newline>'' else [])"

lemma kind_safe_unlink:
  "kind (safe_unlink fs p) q = (if is_file fs p \<and> p \<noteq> [] \<and> q = p then Absent else kind fs q)"
proof (cases "is_file fs p")
  case True
  then have "kind fs p \<noteq> IsDir" "path_exists fs p"
    by (auto simp: is_file_kind path_exists_kind)
  then have "kind fs q = Absent" if "prefix p q" "q \<noteq> p"
    using that kind_below_not_dir [of fs p] by (auto simp: prefix_def)
  with True \<open>path_exists fs p\<close> show ?thesis
    by (auto simp: safe_unlink_def kind_remove_entry)
next
  case False
  then show ?thesis by (simp add: safe_unlink_def)
qed

lemma kind_safe_rmtree:
  "kind (safe_rmtree fs p) q = (if is_dir fs p \<and> p \<noteq> [] \<and> prefix p q then Absent else kind fs q)"
  by (auto simp: safe_rmtree_def kind_remove_entry path_exists_kind is_dir_kind)

lemma kind_write_lines:
  assumes "write_lines fs p lines = Ok fs'"
  shows "kind fs' q = (if q = p then IsFile (lines_text lines)
                       else if prefix q (butlast p) then IsDir else kind fs q)"
proof -
  from assms obtain fs1 where m: "mkdir_p (butlast p) fs = Inr fs1"
    and w: "write_file p (lines_text lines) fs1 = Inr fs'"
    by (auto simp: write_lines_def step_def lines_text_def split: sum.splits)
  show ?thesis
    by (simp add: kind_write_file [OF w] kind_mkdir_p [OF m])
qed

lemma kind_write_text:
  assumes "write_text fs p text = Ok fs'"
  shows "kind fs' q = (if q = p then IsFile (rstrip text @ ''\<newline>'')
                       else if prefix q (butlast p) then IsDir else kind fs q)"
proof -
  from assms obtain fs1 where m: "mkdir_p (butlast p) fs = Inr fs1"
    and w: "write_file p (rstrip text @ ''\<newline>'') fs1 = Inr fs'"
    by (auto simp: write_text_def step_def split: sum.splits)
  show ?thesis
    by (simp add: kind_write_file [OF w] kind_mkdir_p [OF m])
qed

lemma write_lines_frame:
  assumes "\<not> prefix q (butlast p)" "q \<noteq> p"
  shows "kind (state_of (write_lines fs p lines)) q = kind fs q"
proof (cases "mkdir_p (butlast p) fs")
  case (Inl e)
  then show ?thesis by (simp add: write_lines_def step_def state_of_def)
next
  case (Inr fs1)
  show ?thesis
  proof (cases "write_file p (lines_text lines) fs1")
    case (Inl e)
    with Inr assms show ?thesis
      by (simp add: write_lines_def step_def state_of_def lines_text_def kind_mkdir_p [OF Inr])
  next
    case (Inr fs2)
    with \<open>mkdir_p (butlast p) fs = Inr fs1\<close> assms show ?thesis
      by (simp add: write_lines_def step_def state_of_def lines_text_def
          kind_mkdir_p [OF \<open>mkdir_p (butlast p) fs = Inr fs1\<close>] kind_write_file [OF Inr])
  qed
qed

lemma write_text_frame:
  assumes "\<not> prefix q (butlast p)" "q \<noteq> p"
  shows "kind (state_of (write_text fs p text)) q = kind fs q"
proof (cases "mkdir_p (butlast p) fs")
  case (Inl e)
  then show ?thesis by (simp add: write_text_def step_def state_of_def)
next
  case (Inr fs1)
  show ?thesis
  proof (cases "write_file p (rstrip text @ ''\<newline>'') fs1")
    case (Inl e)
    with Inr assms show ?thesis
      by (simp add: write_text_def step_def state_of_def kind_mkdir_p [OF Inr])
  next
    case (Inr fs2)
    with \<open>mkdir_p (butlast p) fs = Inr fs1\<close> assms show ?thesis
      by (simp add: write_text_def step_def state_of_def
          kind_mkdir_p [OF \<open>mkdir_p (butlast p) fs = Inr fs1\<close>] kind_write_file [OF Inr])
  qed
qed

lemma append_line_unique_frame:
  assumes "\<not> prefix q (butlast p)" "q \<noteq> p"
  shows "kind (state_of (append_line_unique fs p line)) q = kind fs q"
proof (cases "mkdir_p (butlast p) fs")
  case (Inl e)
  then show ?thesis by (simp add: append_line_unique_def step_def state_of_def)
next
  case (Inr fs1)
  have k1: "kind fs1 q = kind fs q"
    using assms by (simp add: kind_mkdir_p [OF Inr])
  show ?thesis
  proof (cases "read_lines fs1 p")
    case (Inl e)
    with Inr k1 show ?thesis by (simp add: append_line_unique_def step_def state_of_def)
  next
    case (Inr existing)
    with \<open>mkdir_p (butlast p) fs = Inr fs1\<close> k1 write_lines_frame [OF assms, of fs1]
    show ?thesis
      by (simp add: append_line_unique_def step_def) (simp add: state_of_def)
  qed
qed

section \<open>Lines and import edges written and read back\<close>

definition clean_line :: "string \<Rightarrow> bool" where
  "clean_line l \<longleftrightarrow> l \<noteq> [] \<and> \<not> is_space (hd l) \<and> \<not> is_space (last l) \<and> (\<forall>c \<in> set l. \<not> is_linebreak c)"

definition token :: "string \<Rightarrow> bool" where
  "token t \<longleftrightarrow> t \<noteq> [] \<and> (\<forall>c \<in> set t. \<not> is_space c)"

lemma linebreak_is_space: "is_linebreak c \<Longrightarrow> is_space c"
  by (auto simp: is_linebreak_def is_space_def)

lemma lstrip_id: "s = [] \<or> \<not> is_space (hd s) \<Longrightarrow> lstrip s = s"
  by (cases s) (auto simp: lstrip_def)

lemma rstrip_id: "s = [] \<or> \<not> is_space (last s) \<Longrightarrow> rstrip s = s"
  by (cases s rule: rev_cases) (auto simp: rstrip_def)

lemma strip_id: "s = [] \<or> (\<not> is_space (hd s) \<and> \<not> is_space (last s)) \<Longrightarrow> strip s = s"
  by (auto simp: strip_def lstrip_id rstrip_id)

lemma set_lstrip: "set (lstrip s) \<subseteq> set s"
  by (simp add: lstrip_def set_dropWhileD subsetI)

lemma set_rstrip: "set (rstrip s) \<subseteq> set s"
  using set_dropWhileD [of _ is_space "rev s"] by (auto simp: rstrip_def)

lemma set_strip: "set (strip s) \<subseteq> set s"
  using set_lstrip set_rstrip by (fastforce simp: strip_def)

lemma hd_lstrip: "lstrip s \<noteq> [] \<Longrightarrow> \<not> is_space (hd (lstrip s))"
  by (simp add: lstrip_def hd_dropWhile)

lemma last_rstrip: "rstrip s \<noteq> [] \<Longrightarrow> \<not> is_space (last (rstrip s))"
  using hd_dropWhile [of is_space "rev s"] by (simp add: rstrip_def last_rev)

lemma hd_rstrip: "rstrip s \<noteq> [] \<Longrightarrow> hd (rstrip s) = hd s"
proof (induction s rule: rev_induct)
  case Nil
  then show ?case by (simp add: rstrip_def)
next
  case (snoc x xs)
  show ?case
  proof (cases "is_space x")
    case True
    then have r: "rstrip (xs @ [x]) = rstrip xs" by (simp add: rstrip_def)
    with snoc have "rstrip xs \<noteq> []" by simp
    then have "xs \<noteq> []" by (auto simp: rstrip_def)
    with snoc r show ?thesis by simp
  next
    case False
    then show ?thesis by (simp add: rstrip_def)
  qed
qed

lemma strip_clean_ends:
  assumes "strip s \<noteq> []"
  shows "\<not> is_space (hd (strip s))" "\<not> is_space (last (strip s))"
proof -
  from assms have l: "lstrip s \<noteq> []" by (auto simp: strip_def rstrip_def)
  from assms show "\<not> is_space (last (strip s))" by (simp add: strip_def last_rstrip)
  from assms have "hd (strip s) = hd (lstrip s)" by (simp add: strip_def hd_rstrip)
  with hd_lstrip [OF l] show "\<not> is_space (hd (strip s))" by simp
qed

lemma strip_strip: "strip (strip s) = strip s"
  using strip_clean_ends [of s] by (intro strip_id) auto

lemma clean_line_strip: "clean_line l \<Longrightarrow> strip l = l"
  by (simp add: clean_line_def strip_id)

lemma token_clean: "token t \<Longrightarrow> clean_line t"
  by (auto simp: token_def clean_line_def dest: linebreak_is_space)

lemma universal_newlines_id: "CHR 0x0D \<notin> set s \<Longrightarrow> universal_newlines s = s"
  by (induction s) auto

lemma splitlines_no_break: "l \<in> set (splitlines s) \<Longrightarrow> c \<in> set l \<Longrightarrow> \<not> is_linebreak c"
proof (induction s arbitrary: l rule: splitlines.induct)
  case (1 s)
  show ?case
  proof (cases "s = []")
    case True
    with 1 show ?thesis by (simp add: splitlines.simps)
  next
    case ne: False
    show ?thesis
    proof (cases "dropWhile (\<lambda>c. \<not> is_linebreak c) s")
      case Nil
      then have "\<forall>c \<in> set s. \<not> is_linebreak c" by (simp add: dropWhile_eq_Nil_conv)
      moreover from ne "1.prems" have "l = s"
        by (subst (asm) splitlines.simps) (simp only: Nil list.case if_False list.set, simp)
      ultimately show ?thesis using "1.prems" by simp
    next
      case (Cons b r)
      let ?r = "if b = CHR 0x0D \<and> r \<noteq> [] \<and> hd r = CHR 0x0A then tl r else r"
      from Cons ne "1.prems" have "l = takeWhile (\<lambda>c. \<not> is_linebreak c) s \<or> l \<in> set (splitlines ?r)"
        by (auto simp: splitlines.simps [of s])
      then show ?thesis
      proof
        assume "l = takeWhile (\<lambda>c. \<not> is_linebreak c) s"
        with "1.prems" show ?thesis by (auto dest: set_takeWhileD)
      next
        assume "l \<in> set (splitlines ?r)"
        from "1.IH" [OF ne Cons this "1.prems"(2)] show ?thesis .
      qed
    qed
  qed
qed

lemma splitlines_line_break:
  assumes "\<forall>c \<in> set l. \<not> is_linebreak c"
  shows "splitlines (l @ CHR 0x0A # rest) = l # splitlines rest"
proof -
  have d: "dropWhile (\<lambda>c. \<not> is_linebreak c) (l @ CHR 0x0A # rest) = CHR 0x0A # rest"
    using assms by (simp add: dropWhile_append3 is_linebreak_def)
  have t: "takeWhile (\<lambda>c. \<not> is_linebreak c) (l @ CHR 0x0A # rest) = l"
    using assms by (simp add: takeWhile_tail is_linebreak_def)
  show ?thesis
    by (subst splitlines.simps) (simp add: d t)
qed

lemma splitlines_lines_text:
  assumes "\<forall>l \<in> set ls. \<forall>c \<in> set l. \<not> is_linebreak c"
  shows "splitlines (lines_text ls) = ls"
  using assms
proof (induction ls rule: py_join.induct [of _ "''\<newline>''"])
  case (1 sep)
  show ?case by (simp add: lines_text_def splitlines.simps)
next
  case (2 sep x)
  then have "splitlines (x @ CHR 0x0A # []) = x # splitlines []"
    by (intro splitlines_line_break) simp
  then show ?case by (simp add: lines_text_def splitlines.simps [of "[]"])
next
  case (3 sep x y ys)
  then have "splitlines (lines_text (y # ys)) = y # ys" by simp
  moreover have "lines_text (x # y # ys) = x @ CHR 0x0A # lines_text (y # ys)"
    by (simp add: lines_text_def)
  moreover have "splitlines (x @ CHR 0x0A # lines_text (y # ys)) = x # splitlines (lines_text (y # ys))"
    using 3 by (intro splitlines_line_break) simp
  ultimately show ?case by simp
qed

lemma set_lines_text: "set (lines_text ls) \<subseteq> insert CHR 0x0A (\<Union> (set ` set ls))"
  by (induction ls rule: py_join.induct [of _ "''\<newline>''"]) (auto simp: lines_text_def)

lemma universal_newlines_lines_text:
  assumes "\<forall>l \<in> set ls. \<forall>c \<in> set l. \<not> is_linebreak c"
  shows "universal_newlines (lines_text ls) = lines_text ls"
proof (rule universal_newlines_id)
  have "\<not> is_linebreak c" if "c \<in> \<Union> (set ` set ls)" for c
    using that assms by auto
  then have "CHR 0x0D \<notin> \<Union> (set ` set ls)"
    by (force simp: is_linebreak_def)
  with set_lines_text [of ls] show "CHR 0x0D \<notin> set (lines_text ls)" by auto
qed

lemma read_lines_kind:
  "read_lines fs p =
     (case kind fs p of
        Absent \<Rightarrow> Inr []
      | IsDir \<Rightarrow> Inl OSError
      | IsFile s \<Rightarrow> Inr (map strip (filter (\<lambda>ln. strip ln \<noteq> []) (splitlines (universal_newlines s)))))"
  by (simp add: read_lines_def path_exists_kind read_text_raw_kind split: kind.splits)

lemma read_text_kind:
  "read_text fs p =
     (case kind fs p of
        Absent \<Rightarrow> Inr []
      | IsDir \<Rightarrow> Inl OSError
      | IsFile s \<Rightarrow> Inr (strip (universal_newlines s)))"
  by (simp add: read_text_def path_exists_kind read_text_raw_kind split: kind.splits)

lemma read_lines_clean: "read_lines fs p = Inr ls \<Longrightarrow> l \<in> set ls \<Longrightarrow> clean_line l"
proof -
  assume r: "read_lines fs p = Inr ls" and l: "l \<in> set ls"
  show "clean_line l"
  proof (cases "kind fs p")
    case Absent
    with r l show ?thesis by (simp add: read_lines_kind)
  next
    case IsDir
    with r show ?thesis by (simp add: read_lines_kind)
  next
    case (IsFile s)
    with r l obtain ln where ln: "ln \<in> set (splitlines (universal_newlines s))"
      and ne: "strip ln \<noteq> []" and eq: "l = strip ln"
      by (auto simp: read_lines_kind)
    have "\<not> is_linebreak c" if "c \<in> set l" for c
      using that eq set_strip [of ln] splitlines_no_break [OF ln] by auto
    with ne eq strip_clean_ends [of ln] show ?thesis by (simp add: clean_line_def)
  qed
qed

lemma read_lines_of_text:
  assumes "kind fs p = IsFile (lines_text ls)" "\<forall>l \<in> set ls. clean_line l"
  shows "read_lines fs p = Inr ls"
proof -
  from assms(2) have nb: "\<forall>l \<in> set ls. \<forall>c \<in> set l. \<not> is_linebreak c"
    by (simp add: clean_line_def)
  have "map strip (filter (\<lambda>ln. strip ln \<noteq> []) ls) = ls"
    using assms(2) by (induction ls) (auto simp: clean_line_strip, auto simp: clean_line_def)
  with assms(1) show ?thesis
    by (simp add: read_lines_kind universal_newlines_lines_text [OF nb] splitlines_lines_text [OF nb])
qed

definition edge_ok :: "string \<times> string option \<Rightarrow> bool" where
  "edge_ok e \<longleftrightarrow> token (fst e) \<and> (\<forall>w. snd e = Some w \<longrightarrow> (\<forall>c \<in> set w. \<not> is_space c))"

definition norm_edge :: "string \<times> string option \<Rightarrow> string \<times> string option" where
  "norm_edge e = (fst e, if truthy (snd e) then snd e else None)"

lemma py_split_Nil: "py_split [] = []"
  by (simp add: py_split.simps)

lemma py_split_space: "is_space c \<Longrightarrow> py_split (c # s) = py_split s"
  by (subst py_split.simps, subst (2) py_split.simps) simp

lemma py_split_token_Nil: "token t \<Longrightarrow> py_split t = [t]"
proof -
  assume t: "token t"
  then obtain a r where ar: "t = a # r" by (cases t) (auto simp: token_def)
  with t have d: "dropWhile is_space t = a # r" by (auto simp: token_def)
  from t ar have tw: "takeWhile (\<lambda>c. \<not> is_space c) (a # r) = t"
    and dw: "dropWhile (\<lambda>c. \<not> is_space c) (a # r) = []"
    by (auto simp: token_def)
  show ?thesis
    by (subst py_split.simps) (simp only: d list.case tw dw py_split_Nil)
qed

lemma py_split_token_space:
  assumes "token t" "is_space c"
  shows "py_split (t @ c # rest) = t # py_split rest"
proof -
  from assms obtain a r where ar: "t = a # r" by (cases t) (auto simp: token_def)
  with assms have d: "dropWhile is_space (t @ c # rest) = a # r @ c # rest" by (auto simp: token_def)
  have tw: "takeWhile (\<lambda>c. \<not> is_space c) (a # r @ c # rest) = t"
    using assms ar takeWhile_tail [of "\<lambda>c. \<not> is_space c" c t rest] by (auto simp: token_def)
  have dw: "dropWhile (\<lambda>c. \<not> is_space c) (a # r @ c # rest) = c # rest"
    using assms ar dropWhile_append3 [of "\<lambda>c. \<not> is_space c" c t rest] by (auto simp: token_def)
  show ?thesis
    by (subst py_split.simps) (simp only: d list.case tw dw py_split_space [OF assms(2)])
qed

lemma py_split_tokens: "w \<in> set (py_split s) \<Longrightarrow> token w"
proof (induction s arbitrary: w rule: py_split.induct)
  case (1 s)
  show ?case
  proof (cases "dropWhile is_space s")
    case Nil
    with "1.prems" show ?thesis by (simp add: py_split.simps [of s])
  next
    case (Cons a r)
    then have na: "\<not> is_space a"
      by (metis hd_dropWhile list.sel(1) list.distinct(1))
    from Cons "1.prems" have "w = takeWhile (\<lambda>c. \<not> is_space c) (a # r)
        \<or> w \<in> set (py_split (dropWhile (\<lambda>c. \<not> is_space c) (a # r)))"
      by (simp add: py_split.simps [of s])
    then show ?thesis
    proof
      assume w: "w = takeWhile (\<lambda>c. \<not> is_space c) (a # r)"
      with na have "w \<noteq> []" by simp
      moreover have "\<not> is_space c" if "c \<in> set w" for c
        using that w set_takeWhileD [of c "\<lambda>c. \<not> is_space c" "a # r"] by blast
      ultimately show ?thesis by (simp add: token_def)
    next
      assume "w \<in> set (py_split (dropWhile (\<lambda>c. \<not> is_space c) (a # r)))"
      from "1.IH" [OF Cons this] show ?thesis .
    qed
  qed
qed

lemma py_split_clean_nonempty: "clean_line l \<Longrightarrow> py_split l \<noteq> []"
proof -
  assume "clean_line l"
  then obtain a r where "l = a # r" "\<not> is_space a"
    by (cases l) (auto simp: clean_line_def)
  then have "dropWhile is_space l = a # r" by simp
  then show ?thesis by (subst py_split.simps) simp
qed

lemma via_fold_no_space:
  assumes "\<forall>p \<in> set ps. token p" "\<forall>w. v0 = Some w \<longrightarrow> (\<forall>c \<in> set w. \<not> is_space c)"
    and "fold (\<lambda>p via. if startswith p ''via='' then Some (drop 4 p) else via) ps v0 = Some w"
  shows "\<forall>c \<in> set w. \<not> is_space c"
  using assms
proof (induction ps arbitrary: v0)
  case Nil
  then show ?case by simp
next
  case (Cons p ps)
  have d: "\<forall>c \<in> set (drop 4 p). \<not> is_space c"
    using Cons.prems(1) by (auto simp: token_def dest: in_set_dropD)
  let ?v = "if startswith p ''via='' then Some (drop 4 p) else v0"
  have b: "\<forall>w. ?v = Some w \<longrightarrow> (\<forall>c \<in> set w. \<not> is_space c)"
    using d Cons.prems(2) by simp
  have a: "\<forall>p \<in> set ps. token p" using Cons.prems(1) by simp
  have c: "fold (\<lambda>p via. if startswith p ''via='' then Some (drop 4 p) else via) ps ?v = Some w"
    using Cons.prems(3) by simp
  from Cons.IH [OF a b c] show ?case .
qed

lemma parse_import_line_ok: "clean_line l \<Longrightarrow> edge_ok (parse_import_line l)"
proof -
  assume c: "clean_line l"
  then obtain u rest where s: "py_split l = u # rest"
    using py_split_clean_nonempty by (cases "py_split l") auto
  then have t: "token u" "\<forall>p \<in> set rest. token p"
    using py_split_tokens [of _ l] by auto
  show ?thesis
    using t via_fold_no_space [OF t(2), of None]
    by (auto simp: parse_import_line_def s edge_ok_def)
qed

lemma read_imports_ok: "read_imports fs uid = Inr imps \<Longrightarrow> e \<in> set imps \<Longrightarrow> edge_ok e"
proof -
  assume r: "read_imports fs uid = Inr imps" and e: "e \<in> set imps"
  then obtain lns where l: "read_lines fs (imports_path uid) = Inr lns"
    and i: "imps = map parse_import_line (filter (\<lambda>ln. ln \<noteq> []) lns)"
    by (auto simp: read_imports_def split: sum.splits)
  with e obtain x where "x \<in> set lns" "e = parse_import_line x" by auto
  with read_lines_clean [OF l] show ?thesis by (simp add: parse_import_line_ok)
qed

lemma format_import_line_clean:
  assumes "edge_ok (u, v)"
  shows "clean_line (format_import_line u v)"
proof (cases "truthy v")
  case False
  with assms show ?thesis
    by (simp add: format_import_line_def edge_ok_def token_clean)
next
  case True
  then obtain w where v: "v = Some w" "w \<noteq> []" by (auto simp: truthy_def split: option.splits)
  with assms have w: "\<forall>c \<in> set w. \<not> is_space c" and u: "token u" by (auto simp: edge_ok_def)
  have sp: "\<not> is_linebreak CHR '' ''" "\<not> is_space CHR ''v''" "\<not> is_space CHR ''i''"
    "\<not> is_space CHR ''a''" "\<not> is_space CHR ''=''"
    by (simp_all add: is_linebreak_def is_space_def)
  from u have "u \<noteq> []" "\<not> is_space (hd u)" by (auto simp: token_def)
  moreover from w v have "\<not> is_space (last w)" by auto
  moreover have "\<not> is_linebreak c" if "c \<in> set u \<or> c \<in> set w" for c
    using that u w linebreak_is_space by (auto simp: token_def)
  ultimately show ?thesis
    using True v sp by (auto simp: format_import_line_def clean_line_def is_linebreak_def)
qed

lemma parse_format_import_line:
  assumes "edge_ok (u, v)"
  shows "parse_import_line (format_import_line u v) = norm_edge (u, v)"
proof (cases "truthy v")
  case False
  with assms show ?thesis
    by (simp add: format_import_line_def parse_import_line_def norm_edge_def edge_ok_def
        py_split_token_Nil)
next
  case True
  then obtain w where v: "v = Some w" "w \<noteq> []" by (auto simp: truthy_def split: option.splits)
  with assms have w: "\<forall>c \<in> set w. \<not> is_space c" and u: "token u" by (auto simp: edge_ok_def)
  have "token (''via='' @ w)"
    using w by (auto simp: token_def is_space_def)
  then have "py_split (''via='' @ w) = [''via='' @ w]" by (rule py_split_token_Nil)
  moreover have "py_split (u @ CHR '' '' # (''via='' @ w)) = u # py_split (''via='' @ w)"
    by (rule py_split_token_space [OF u]) (simp add: is_space_def)
  ultimately have "py_split (format_import_line u v) = [u, ''via='' @ w]"
    using True v by (simp add: format_import_line_def)
  then show ?thesis
    using True v by (simp add: parse_import_line_def norm_edge_def startswith_def)
qed

lemma norm_edge_ok: "edge_ok e \<Longrightarrow> edge_ok (norm_edge e)"
  by (auto simp: edge_ok_def norm_edge_def)

lemma read_imports_of_text:
  assumes "kind fs (imports_path uid) = IsFile (lines_text (map (\<lambda>(u, v). format_import_line u v) es))"
    and "\<forall>e \<in> set es. edge_ok e"
  shows "read_imports fs uid = Inr (map norm_edge es)"
proof -
  let ?ls = "map (\<lambda>(u, v). format_import_line u v) es"
  have c: "\<forall>l \<in> set ?ls. clean_line l"
    using assms(2) format_import_line_clean by auto
  have r: "read_lines fs (imports_path uid) = Inr ?ls"
    by (rule read_lines_of_text [OF assms(1) c])
  have "filter (\<lambda>ln. ln \<noteq> []) ?ls = ?ls"
    using c by (auto simp: clean_line_def filter_id_conv)
  moreover have "map parse_import_line ?ls = map norm_edge es"
    using assms(2) parse_format_import_line by (auto simp: case_prod_beta)
  ultimately show ?thesis by (simp add: read_imports_def r)
qed

section \<open>Writes that succeed, reads that are unaffected\<close>

lemma kind_prefix_dir: "kind fs p \<noteq> Absent \<Longrightarrow> strict_prefix q p \<Longrightarrow> kind fs q = IsDir"
proof -
  assume a: "kind fs p \<noteq> Absent" and "strict_prefix q p"
  then obtain r where "p = q @ r" "r \<noteq> []" by (auto simp: strict_prefix_def prefix_def)
  with a kind_below_not_dir [of fs q r] show ?thesis by auto
qed

lemma kind_prefix_dir': "kind fs p = IsDir \<Longrightarrow> prefix q p \<Longrightarrow> kind fs q = IsDir"
  using kind_prefix_dir [of fs p q] by (cases "q = p") (auto simp: strict_prefix_def)

lemma mkdir_p_existing:
  assumes "kind fs p = IsDir"
  shows "\<exists>fs'. mkdir_p p fs = Inr fs' \<and> kind fs' = kind fs"
proof -
  have "\<forall>q. prefix q p \<longrightarrow> (\<forall>s. kind fs q \<noteq> IsFile s)"
    using kind_prefix_dir' [OF assms] by auto
  then obtain fs' where m: "mkdir_p p fs = Inr fs'" using mkdir_p_ok by blast
  have "kind fs' q = kind fs q" for q
    using kind_mkdir_p [OF m, of q] kind_prefix_dir' [OF assms, of q] by auto
  with m show ?thesis by auto
qed

lemma write_lines_ok:
  assumes "kind fs (butlast p) = IsDir" "p \<noteq> []" "kind fs p \<noteq> IsDir"
  shows "\<exists>fs'. write_lines fs p lines = Ok fs' \<and> kind fs' = (kind fs)(p := IsFile (lines_text lines))"
proof -
  from mkdir_p_existing [OF assms(1)] obtain fs1 where m: "mkdir_p (butlast p) fs = Inr fs1"
    and k1: "kind fs1 = kind fs" by auto
  from assms k1 obtain fs' where w: "write_file p (lines_text lines) fs1 = Inr fs'"
    using write_file_ok [of p "lines_text lines" fs1] by auto
  have "kind fs' = (kind fs)(p := IsFile (lines_text lines))"
    using kind_write_file [OF w] k1 by (auto simp: fun_eq_iff)
  with m w show ?thesis by (simp add: write_lines_def step_def lines_text_def)
qed

lemma write_text_ok:
  assumes "kind fs (butlast p) = IsDir" "p \<noteq> []" "kind fs p \<noteq> IsDir"
  shows "\<exists>fs'. write_text fs p text = Ok fs' \<and> kind fs' = (kind fs)(p := IsFile (rstrip text @ ''\<newline>''))"
proof -
  from mkdir_p_existing [OF assms(1)] obtain fs1 where m: "mkdir_p (butlast p) fs = Inr fs1"
    and k1: "kind fs1 = kind fs" by auto
  from assms k1 obtain fs' where w: "write_file p (rstrip text @ ''\<newline>'') fs1 = Inr fs'"
    using write_file_ok [of p "rstrip text @ ''\<newline>''" fs1] by auto
  have "kind fs' = (kind fs)(p := IsFile (rstrip text @ ''\<newline>''))"
    using kind_write_file [OF w] k1 by (auto simp: fun_eq_iff)
  with m w show ?thesis by (simp add: write_text_def step_def)
qed

lemma read_lines_cong: "kind fs' p = kind fs p \<Longrightarrow> read_lines fs' p = read_lines fs p"
  by (simp add: read_lines_kind)

lemma read_text_cong: "kind fs' p = kind fs p \<Longrightarrow> read_text fs' p = read_text fs p"
  by (simp add: read_text_kind)

lemma read_imports_cong:
  "kind fs' (imports_path u) = kind fs (imports_path u) \<Longrightarrow> read_imports fs' u = read_imports fs u"
  by (simp add: read_imports_def read_lines_kind)

lemma read_shared_cong:
  "kind fs' (shared_path u) = kind fs (shared_path u) \<Longrightarrow> read_shared fs' u = read_shared fs u"
  by (simp add: read_shared_def read_lines_kind)

lemma read_lines_not_dir: "read_lines fs p = Inr ls \<Longrightarrow> kind fs p \<noteq> IsDir"
  by (auto simp: read_lines_kind)

lemma read_imports_not_dir: "read_imports fs u = Inr imps \<Longrightarrow> kind fs (imports_path u) \<noteq> IsDir"
  by (auto simp: read_imports_def read_lines_kind split: sum.splits)

lemma remove_import_loop_no_match:
  assumes "\<forall>(u, v) \<in> set imps. \<not> (u = imported \<and> (exporter = None \<or> v = exporter))"
  shows "remove_import_loop imported exporter imps removed = map (\<lambda>(u, v). format_import_line u v) imps"
  using assms by (induction imps arbitrary: removed) auto

lemma state_of_simps [simp]: "state_of (Ok fs) = fs" "state_of (Fail e fs) = fs"
  by (simp_all add: state_of_def)

lemma frame_and_then:
  assumes "kind (state_of r) q = kind fs q"
    and "\<And>fs1. r = Ok fs1 \<Longrightarrow> kind (state_of (k fs1)) q = kind fs1 q"
  shows "kind (state_of (and_then r k)) q = kind fs q"
  using assms by (cases r) (auto simp: and_then_def)

lemma frame_step_mkdir:
  assumes "\<not> prefix q p"
    and "\<And>fs1. mkdir_p p fs = Inr fs1 \<Longrightarrow> kind (state_of (k fs1)) q = kind fs1 q"
  shows "kind (state_of (step fs (mkdir_p p fs) k)) q = kind fs q"
proof (cases "mkdir_p p fs")
  case (Inl e)
  then show ?thesis by (simp add: step_def)
next
  case (Inr fs1)
  with assms kind_mkdir_p [OF Inr, of q] show ?thesis by (simp add: step_def)
qed

lemma create_shared_loop_frame:
  assumes "\<not> prefix q (exports_dir exporter)" "\<not> prefix (exports_dir exporter) q"
    "q \<noteq> shared_path exporter"
  shows "kind (state_of (create_shared_loop fs exporter sids)) q = kind fs q"
proof (induction sids arbitrary: fs)
  case Nil
  show ?case by simp
next
  case (Cons sid rest)
  let ?sub = "exports_dir exporter @ [sid]"
  have e: "exports_dir exporter = butlast (shared_path exporter) @ [''exports'']"
    by (simp add: exports_dir_def shared_path_def butlast_append)
  have nq1: "\<not> prefix q (butlast (shared_path exporter))"
    using assms(1) unfolding e by (metis prefix_order.trans prefixI)
  have nq2: "\<not> prefix q ?sub"
    using assms(1,2) by (auto simp: prefix_snoc)
  have nq3: "\<not> prefix q (butlast (?sub @ [DESC_FILE]))"
    using nq2 by (simp add: butlast_append)
  have nq4: "q \<noteq> ?sub @ [DESC_FILE]"
    using assms(2) by (auto simp: prefix_def)
  note nq = nq1 nq2 nq3 nq4
  show ?case
    unfolding create_shared_loop.simps Let_def
  proof (rule frame_and_then [OF append_line_unique_frame [OF nq(1) assms(3)]],
      rule frame_step_mkdir [OF nq(2)], rule frame_and_then)
    fix fs1 fs2
    show "kind (state_of (if \<not> path_exists fs2 (?sub @ [DESC_FILE])
            then case if entity_exists fs2 sid
                      then case read_desc fs2 sid of Inl e \<Rightarrow> Inl e | Inr d \<Rightarrow> Inr (dict_get d ''purpose'' [])
                      else Inr [] of
                   Inl e \<Rightarrow> Fail e fs2
                 | Inr purpose \<Rightarrow> write_text fs2 (?sub @ [DESC_FILE]) (if purpose \<noteq> [] then purpose else sid)
            else Ok fs2)) q = kind fs2 q"
      using write_text_frame [OF nq(3) nq(4), of fs2]
      by (auto split: sum.splits)
  next
    fix fs3
    show "kind (state_of (create_shared_loop fs3 exporter rest)) q = kind fs3 q"
      by (rule Cons.IH)
  qed
qed

lemma create_shared_frame:
  assumes "\<not> prefix q (exports_dir exporter)" "\<not> prefix (exports_dir exporter) q"
    "q \<noteq> shared_path exporter"
  shows "kind (state_of (create_shared fs exporter sids)) q = kind fs q"
  unfolding create_shared_def
  using frame_step_mkdir [OF assms(1), of fs "\<lambda>fs1. create_shared_loop fs1 exporter sids"]
    create_shared_loop_frame [OF assms]
  by simp

section \<open>Descriptions written and read back\<close>

text \<open>The keys and values for which the description file is a faithful record, and the order
  in which \<open>serialize_desc\<close> writes the fields.\<close>

definition key_ok :: "string \<Rightarrow> bool" where
  "key_ok k \<longleftrightarrow> k \<noteq> [] \<and> (\<forall>c \<in> set k. is_key_char c)"

definition single_line :: "string \<Rightarrow> bool" where
  "single_line v \<longleftrightarrow> (\<forall>c \<in> set v. \<not> is_linebreak c)"

definition desc_ok :: "dict \<Rightarrow> bool" where
  "desc_ok d \<longleftrightarrow> distinct (map fst d) \<and> (\<forall>(k, v) \<in> set d. key_ok k \<and> single_line v)"

definition reserved_first :: "dict \<Rightarrow> dict" where
  "reserved_first d =
     map (\<lambda>k. (k, the (map_of d k))) (filter (\<lambda>k. k \<in> fst ` set d) DESC_ORDERED)
     @ filter (\<lambda>(k, v). k \<notin> set DESC_ORDERED) d"

definition entry :: "string \<times> string \<Rightarrow> string" where
  "entry = (\<lambda>(k, v). k @ '': '' @ v)"

lemma serialize_desc_entries: "serialize_desc d = py_join ''\<newline>'' (map entry (reserved_first d))"
  by (simp add: serialize_desc_def reserved_first_def entry_def comp_def)

lemma set_reserved_first:
  assumes d: "distinct (map fst d)"
  shows "set (reserved_first d) = set d"
proof
  show "set (reserved_first d) \<subseteq> set d"
  proof
    fix e assume "e \<in> set (reserved_first d)"
    then consider k where "k \<in> fst ` set d" "e = (k, the (map_of d k))"
      | "e \<in> set d"
      by (auto simp: reserved_first_def)
    then show "e \<in> set d"
    proof cases
      case 1
      then obtain v where "map_of d k = Some v"
        by (cases "map_of d k") (auto simp: map_of_eq_None_iff)
      with 1 show ?thesis by (auto dest: map_of_SomeD)
    next
      case 2
      then show ?thesis .
    qed
  qed
  show "set d \<subseteq> set (reserved_first d)"
  proof
    fix e assume e: "e \<in> set d"
    obtain k v where kv: "e = (k, v)" by (cases e)
    with e d have m: "map_of d k = Some v" by simp
    show "e \<in> set (reserved_first d)"
    proof (cases "k \<in> set DESC_ORDERED")
      case True
      moreover have "k \<in> fst ` set d" using e kv by force
      ultimately have "(k, the (map_of d k)) \<in> set (reserved_first d)"
        by (simp add: reserved_first_def image_iff)
      with m kv show ?thesis by simp
    next
      case False
      with e kv show ?thesis by (simp add: reserved_first_def)
    qed
  qed
qed

lemma distinct_reserved_first:
  assumes "distinct (map fst d)"
  shows "distinct (map fst (reserved_first d))"
proof -
  have 1: "map fst (map (\<lambda>k. (k, the (map_of d k))) (filter (\<lambda>k. k \<in> fst ` set d) DESC_ORDERED))
      = filter (\<lambda>k. k \<in> fst ` set d) DESC_ORDERED"
    by (simp add: comp_def)
  have 2: "distinct (filter (\<lambda>k. k \<in> fst ` set d) DESC_ORDERED)"
    by (simp add: DESC_ORDERED_def)
  have 3: "distinct (map fst (filter (\<lambda>(k, v). k \<notin> set DESC_ORDERED) d))"
    using assms by (simp add: distinct_map_filter)
  have 4: "set (filter (\<lambda>k. k \<in> fst ` set d) DESC_ORDERED)
      \<inter> set (map fst (filter (\<lambda>(k, v). k \<notin> set DESC_ORDERED) d)) = {}"
    by auto
  show ?thesis
    unfolding reserved_first_def map_append distinct_append 1
    using 2 3 4 by simp
qed

lemma rstrip_append: "rstrip b \<noteq> [] \<Longrightarrow> rstrip (a @ b) = a @ rstrip b"
  by (auto simp: rstrip_def dropWhile_append dropWhile_eq_Nil_conv)

lemma rstrip_snoc_space: "is_space c \<Longrightarrow> rstrip (a @ [c]) = rstrip a"
  by (simp add: rstrip_def)

lemma rstrip_rstrip: "rstrip (rstrip a) = rstrip a"
  using last_rstrip [of a] by (intro rstrip_id) auto

lemma rstrip_Cons_nonspace: "\<not> is_space c \<Longrightarrow> rstrip (c # s) = c # rstrip s"
  by (auto simp: rstrip_def dropWhile_append dropWhile_eq_Nil_conv)

lemma rstrip_all_space: "rstrip s = [] \<longleftrightarrow> (\<forall>c \<in> set s. is_space c)"
  by (auto simp: rstrip_def dropWhile_eq_Nil_conv)

lemma strip_all_space: "\<forall>c \<in> set s. is_space c \<Longrightarrow> strip s = []"
  using set_lstrip [of s] by (auto simp: strip_def rstrip_all_space)

lemma strip_rstrip: "strip (rstrip s) = strip s"
proof (induction s)
  case Nil
  show ?case by (simp add: rstrip_def)
next
  case (Cons c s)
  show ?case
  proof (cases "is_space c")
    case False
    then show ?thesis
      by (simp add: strip_def lstrip_def rstrip_Cons_nonspace rstrip_rstrip)
  next
    case sp: True
    show ?thesis
    proof (cases "rstrip s = []")
      case True
      then have a: "\<forall>x \<in> set (c # s). is_space x" using sp by (simp add: rstrip_all_space)
      then have "rstrip (c # s) = []" by (simp only: rstrip_all_space)
      with a show ?thesis by (simp add: strip_all_space [OF a]) (simp add: strip_def lstrip_def rstrip_def)
    next
      case False
      then have "rstrip (c # s) = c # rstrip s"
        using rstrip_append [of s "[c]"] by simp
      with sp Cons show ?thesis by (simp add: strip_def lstrip_def)
    qed
  qed
qed

lemma key_char_not_space: "is_key_char c \<Longrightarrow> \<not> is_space c"
  by (auto simp: is_key_char_def is_space_def)

lemma key_char_not_break: "is_key_char c \<Longrightarrow> \<not> is_linebreak c"
  by (auto simp: is_key_char_def is_linebreak_def)

lemma desc_key_match_entry:
  assumes "key_ok k"
  shows "desc_key_match (k @ '':'' @ r) =
     Some (k, case r of [] \<Rightarrow> [] | d # r' \<Rightarrow> if is_space d then r' else r)"
proof -
  have c: "\<not> is_key_char CHR '':''" by (simp add: is_key_char_def)
  have t: "takeWhile is_key_char (k @ CHR '':'' # r) = k"
    using assms c by (simp add: key_ok_def takeWhile_tail)
  have d: "dropWhile is_key_char (k @ CHR '':'' # r) = CHR '':'' # r"
    using assms c by (simp add: key_ok_def dropWhile_append3)
  show ?thesis
    using assms by (simp add: desc_key_match_def t d Let_def key_ok_def)
qed

lemma rstrip_entry:
  assumes "key_ok k"
  shows "\<exists>g. rstrip (entry (k, v)) = k @ '':'' @ g
           \<and> strip (case g of [] \<Rightarrow> [] | d # r' \<Rightarrow> if is_space d then r' else g) = strip v"
proof (cases "rstrip v = []")
  case True
  then have a: "\<forall>c \<in> set v. is_space c" by (simp add: rstrip_all_space)
  have sp: "is_space CHR '' ''" "\<not> is_space CHR '':''" by (simp_all add: is_space_def)
  have "\<forall>c \<in> set ('' '' @ v). is_space c" using a sp by simp
  then have "rstrip ('' '' @ v) = []" by (simp only: rstrip_all_space)
  then have "rstrip ('':'' @ ('' '' @ v)) = '':''"
    using rstrip_Cons_nonspace [OF sp(2), of "'' '' @ v"] by simp
  then have "rstrip (k @ ('':'' @ ('' '' @ v))) = k @ '':''"
    using rstrip_append [of "'':'' @ ('' '' @ v)" k] by simp
  with a show ?thesis
    by (intro exI [of _ "[]"]) (simp add: entry_def strip_all_space)
next
  case False
  then have "rstrip (k @ '': '' @ v) = (k @ '': '') @ rstrip v"
    using rstrip_append [of v "k @ '': ''"] by simp
  moreover have "is_space CHR '' ''" by (simp add: is_space_def)
  ultimately show ?thesis
    by (intro exI [of _ "'' '' @ rstrip v"]) (simp add: entry_def strip_rstrip)
qed

lemma parse_desc_loop_all_keys:
  assumes "\<forall>l \<in> set ls. desc_key_match l \<noteq> None"
  shows "parse_desc_loop ls result ck cl =
     fold (\<lambda>l acc. AList.update (fst (the (desc_key_match l))) (strip (snd (the (desc_key_match l)))) acc)
       ls (flush_key result ck cl)"
  using assms
proof (induction ls arbitrary: result ck cl)
  case Nil
  show ?case by simp
next
  case (Cons l ls)
  then obtain k g where m: "desc_key_match l = Some (k, g)" by auto
  have "flush_key (flush_key result ck cl) (Some k) [g] = AList.update k (strip g) (flush_key result ck cl)"
    by (simp add: flush_key_def)
  with Cons m show ?case by simp
qed

lemma fold_update_fresh:
  assumes "distinct (map fst kvs)" "fst ` set kvs \<inter> fst ` set acc = {}"
  shows "fold (\<lambda>(k, v) acc. AList.update k v acc) kvs acc = acc @ kvs"
  using assms
proof (induction kvs arbitrary: acc)
  case Nil
  show ?case by simp
next
  case (Cons kv kvs)
  obtain k v where kv: "kv = (k, v)" by (cases kv)
  with Cons.prems have "k \<notin> fst ` set acc" by auto
  then have u: "AList.update k v acc = acc @ [(k, v)]"
    by (induction acc) auto
  have "fold (\<lambda>(k, v) acc. AList.update k v acc) kvs (acc @ [(k, v)]) = (acc @ [(k, v)]) @ kvs"
    using Cons.prems kv by (intro Cons.IH) auto
  with u kv show ?case by simp
qed

lemma splitlines_single:
  assumes "l \<noteq> []" "\<forall>c \<in> set l. \<not> is_linebreak c"
  shows "splitlines l = [l]"
proof -
  have d: "dropWhile (\<lambda>c. \<not> is_linebreak c) l = []" using assms(2) by simp
  show ?thesis
    by (subst splitlines.simps, subst d) (simp add: assms(1))
qed

lemma splitlines_join:
  assumes "ls \<noteq> []" "last ls \<noteq> []" "\<forall>l \<in> set ls. \<forall>c \<in> set l. \<not> is_linebreak c"
  shows "splitlines (py_join ''\<newline>'' ls) = ls"
  using assms
proof (induction ls)
  case Nil
  then show ?case by simp
next
  case (Cons x ls)
  show ?case
  proof (cases ls)
    case Nil
    with Cons.prems show ?thesis by (simp add: splitlines_single)
  next
    case (Cons y ys)
    with Cons.prems Cons.IH have "splitlines (py_join ''\<newline>'' (y # ys)) = y # ys" by simp
    moreover have "splitlines (x @ CHR 0x0A # py_join ''\<newline>'' (y # ys))
        = x # splitlines (py_join ''\<newline>'' (y # ys))"
      using Cons.prems by (intro splitlines_line_break) simp
    ultimately show ?thesis using Cons by simp
  qed
qed

lemma py_join_snoc:
  "ls \<noteq> [] \<Longrightarrow> py_join sep (ls @ [l]) = py_join sep ls @ sep @ l"
proof (induction ls)
  case Nil
  then show ?case by simp
next
  case (Cons x ls)
  then show ?case by (cases ls) auto
qed

lemma set_py_join: "set (py_join sep ls) \<subseteq> set sep \<union> \<Union> (set ` set ls)"
proof (induction ls)
  case Nil
  show ?case by simp
next
  case (Cons x ls)
  then show ?case by (cases ls) auto
qed

lemma strip_snoc_space: "is_space c \<Longrightarrow> strip (x @ [c]) = strip x"
proof -
  assume c: "is_space c"
  show ?thesis
  proof (cases "\<forall>a \<in> set x. is_space a")
    case True
    with c have "\<forall>a \<in> set (x @ [c]). is_space a" by simp
    from strip_all_space [OF this] strip_all_space [OF True] show ?thesis by simp
  next
    case False
    then have "lstrip (x @ [c]) = lstrip x @ [c]"
      by (auto simp: lstrip_def dropWhile_append)
    with c show ?thesis by (simp add: strip_def rstrip_snoc_space)
  qed
qed

lemma desc_ok_reserved_first: "desc_ok d \<Longrightarrow> desc_ok (reserved_first d)"
  by (simp add: desc_ok_def distinct_reserved_first set_reserved_first)

lemma entry_eq: "entry (k, v) = k @ '': '' @ v"
  by (simp add: entry_def)

lemma entry_line1:
  assumes "key_ok k"
  shows "entry (k, v) \<noteq> []" "\<not> is_space (hd (entry (k, v)))"
proof -
  from assms obtain a r where k: "k = a # r" "is_key_char a"
    by (cases k) (auto simp: key_ok_def)
  then show "entry (k, v) \<noteq> []" "\<not> is_space (hd (entry (k, v)))"
    by (simp_all add: entry_eq key_char_not_space)
qed


lemma entry_line3:
  assumes "key_ok k" "single_line v"
  shows "\<forall>c \<in> set (entry (k, v)). \<not> is_linebreak c"
proof
  fix c assume "c \<in> set (entry (k, v))"
  then consider "c \<in> set k" | "c = CHR '':''" | "c = CHR '' ''" | "c \<in> set v"
    by (auto simp: entry_eq)
  then show "\<not> is_linebreak c"
  proof cases
    case 1
    with assms(1) show ?thesis by (simp add: key_ok_def key_char_not_break)
  next
    case 2
    then show ?thesis by (simp add: is_linebreak_def)
  next
    case 3
    then show ?thesis by (simp add: is_linebreak_def)
  next
    case 4
    with assms(2) show ?thesis by (simp add: single_line_def)
  qed
qed

lemma entry_line4:
  assumes "key_ok k"
  shows "desc_key_match (entry (k, v)) = Some (k, v)"
proof -
  have "is_space CHR '' ''" by (simp add: is_space_def)
  with desc_key_match_entry [OF assms, of "'' '' @ v"]
  show ?thesis by (simp add: entry_eq)
qed

lemma parse_lines_entries:
  assumes "\<forall>(k, v) \<in> set es. key_ok k \<and> single_line v" "distinct (map fst es)"
    and "length ls = length es"
    and "\<forall>i < length es. \<exists>g. desc_key_match (ls ! i) = Some (fst (es ! i), g) \<and> strip g = strip (snd (es ! i))"
  shows "parse_desc_loop ls [] None [] = map (\<lambda>(k, v). (k, strip v)) es"
proof -
  let ?f = "\<lambda>l. (fst (the (desc_key_match l)), strip (snd (the (desc_key_match l))))"
  have m: "\<forall>l \<in> set ls. desc_key_match l \<noteq> None"
  proof
    fix l assume "l \<in> set ls"
    then obtain i where "i < length ls" "l = ls ! i" by (auto simp: in_set_conv_nth)
    with assms(3,4) show "desc_key_match l \<noteq> None" by fastforce
  qed
  have "map ?f ls = map (\<lambda>(k, v). (k, strip v)) es"
  proof (rule nth_equalityI)
    show "length (map ?f ls) = length (map (\<lambda>(k, v). (k, strip v)) es)"
      using assms(3) by simp
  next
    fix i assume "i < length (map ?f ls)"
    then have i: "i < length es" using assms(3) by simp
    with assms(4) obtain g where "desc_key_match (ls ! i) = Some (fst (es ! i), g)"
      "strip g = strip (snd (es ! i))" by blast
    with i assms(3) show "map ?f ls ! i = map (\<lambda>(k, v). (k, strip v)) es ! i"
      by (simp add: case_prod_beta)
  qed
  moreover have "parse_desc_loop ls [] None [] = fold (\<lambda>(k, v) acc. AList.update k v acc) (map ?f ls) []"
    by (simp add: parse_desc_loop_all_keys [OF m] flush_key_def fold_map comp_def)
  moreover have "fold (\<lambda>(k, v) acc. AList.update k v acc) (map (\<lambda>(k, v). (k, strip v)) es) []
      = [] @ map (\<lambda>(k, v). (k, strip v)) es"
    using assms(2) by (intro fold_update_fresh) (simp_all add: comp_def case_prod_beta)
  ultimately show ?thesis by simp
qed

lemma parse_serialize:
  assumes "desc_ok d"
  shows "parse_desc (strip (universal_newlines (rstrip (serialize_desc d) @ ''\<newline>'')))
     = map (\<lambda>(k, v). (k, strip v)) (reserved_first d)"
proof (cases "reserved_first d" rule: rev_cases)
  case Nil
  have "CHR 0x0A \<noteq> CHR 0x0D" by simp
  have "strip ''\<newline>'' = []" by (simp add: strip_def lstrip_def rstrip_def is_space_def)
  then show ?thesis
    by (simp add: serialize_desc_entries Nil rstrip_def parse_desc_def splitlines.simps flush_key_def)
next
  case (snoc es' kv)
  obtain k v where kv: "kv = (k, v)" by (cases kv)
  let ?es = "reserved_first d"
  have ok: "\<forall>(k, v) \<in> set ?es. key_ok k \<and> single_line v" and dist: "distinct (map fst ?es)"
    using desc_ok_reserved_first [OF assms] by (auto simp: desc_ok_def)
  have kok: "key_ok k" "single_line v" using ok snoc kv by auto
  from rstrip_entry [OF kok(1), of v] obtain g where g: "rstrip (entry (k, v)) = k @ '':'' @ g"
    and gv: "strip (case g of [] \<Rightarrow> [] | d # r' \<Rightarrow> if is_space d then r' else g) = strip v"
    by blast
  let ?last = "rstrip (entry (k, v))"
  let ?L = "map entry es' @ [?last]"
  have ne: "?last \<noteq> []" using g kok(1) by (simp add: key_ok_def)
  have text0: "rstrip (serialize_desc d) = py_join ''\<newline>'' ?L"
  proof (cases "es' = []")
    case True
    then show ?thesis by (simp add: serialize_desc_entries snoc kv)
  next
    case False
    then have "serialize_desc d = (py_join ''\<newline>'' (map entry es') @ ''\<newline>'') @ entry (k, v)"
      by (simp add: serialize_desc_entries snoc kv py_join_snoc)
    then have "rstrip (serialize_desc d) = (py_join ''\<newline>'' (map entry es') @ ''\<newline>'') @ ?last"
      using rstrip_append [OF ne, of "py_join ''\<newline>'' (map entry es') @ ''\<newline>''"]
      by (simp only:)
    with False show ?thesis by (simp add: py_join_snoc)
  qed
  have nb: "\<forall>l \<in> set ?L. \<forall>c \<in> set l. \<not> is_linebreak c"
  proof -
    have "\<forall>c \<in> set (entry (k, v)). \<not> is_linebreak c" using entry_line3 [OF kok] .
    then have "\<forall>c \<in> set ?last. \<not> is_linebreak c" using set_rstrip by blast
    moreover have "\<forall>c \<in> set (entry e). \<not> is_linebreak c" if "e \<in> set es'" for e
      using that ok snoc entry_line3 [of "fst e" "snd e"] by (cases e) auto
    ultimately show ?thesis by auto
  qed
  have lb: "is_linebreak CHR 0x0D" by (simp add: is_linebreak_def)
  have "CHR 0x0D \<notin> set (py_join ''\<newline>'' ?L @ ''\<newline>'')"
    using set_py_join [of "''\<newline>''" ?L] nb lb by auto
  then have un: "universal_newlines (py_join ''\<newline>'' ?L @ ''\<newline>'') = py_join ''\<newline>'' ?L @ ''\<newline>''"
    by (rule universal_newlines_id)
  have hdL: "\<not> is_space (hd (py_join ''\<newline>'' ?L))"
  proof (cases es')
    case Nil
    from kok(1) obtain a r where "k = a # r" "is_key_char a" by (cases k) (auto simp: key_ok_def)
    with Nil g show ?thesis by (simp add: key_char_not_space)
  next
    case (Cons e es'')
    obtain k' v' where e: "e = (k', v')" by (cases e)
    with Cons ok snoc have "key_ok k'" "single_line v'" by auto
    from entry_line1 [OF this(1), of v'] have "entry e \<noteq> []" "\<not> is_space (hd (entry e))" using e by auto
    moreover have "py_join ''\<newline>'' ?L = entry e @ ''\<newline>'' @ py_join ''\<newline>'' (map entry es'' @ [?last])"
      using Cons by (cases es'') auto
    ultimately show ?thesis by simp
  qed
  have lastL: "\<not> is_space (last (py_join ''\<newline>'' ?L))"
  proof -
    have "last (py_join ''\<newline>'' ?L) = last ?last"
      using ne by (cases "es' = []") (simp_all add: py_join_snoc)
    with last_rstrip [OF ne] show ?thesis by simp
  qed
  have sp: "is_space CHR 0x0A" by (simp add: is_space_def)
  have st: "strip (py_join ''\<newline>'' ?L @ ''\<newline>'') = py_join ''\<newline>'' ?L"
    using strip_snoc_space [OF sp, of "py_join ''\<newline>'' ?L"] strip_id [of "py_join ''\<newline>'' ?L"] hdL lastL
    by simp
  have sl: "splitlines (py_join ''\<newline>'' ?L) = ?L"
    using ne nb by (intro splitlines_join) auto
  have "parse_desc_loop ?L [] None [] = map (\<lambda>(k, v). (k, strip v)) ?es"
  proof (rule parse_lines_entries [OF ok dist], goal_cases)
    case 1
    show ?case by (simp add: snoc)
  next
    case 2
    show ?case
    proof (intro allI impI)
      fix i assume i: "i < length ?es"
      show "\<exists>g. desc_key_match (?L ! i) = Some (fst (?es ! i), g) \<and> strip g = strip (snd (?es ! i))"
      proof (cases "i < length es'")
        case True
        then have "es' ! i \<in> set es'" by simp
        with ok snoc have "key_ok (fst (es' ! i))" "single_line (snd (es' ! i))" by auto
        from entry_line4 [OF this(1), of "snd (es' ! i)"]
        have "desc_key_match (entry (es' ! i)) = Some (fst (es' ! i), snd (es' ! i))" by simp
        with True show ?thesis
          by (intro exI [of _ "snd (es' ! i)"]) (simp add: snoc nth_append)
      next
        case False
        with i have "i = length es'" by (simp add: snoc)
        then have "?L ! i = ?last" "?es ! i = (k, v)" by (simp_all add: snoc kv nth_append)
        with desc_key_match_entry [OF kok(1), of g] g gv show ?thesis by simp
      qed
    qed
  qed
  then show ?thesis
    by (simp add: parse_desc_def text0 un st sl)
qed

lemma read_desc_after_write:
  assumes "write_desc fs uid d = Ok fs'" "desc_ok d"
  shows "read_desc fs' uid = Inr (map (\<lambda>(k, v). (k, strip v)) (reserved_first d))"
proof -
  from assms(1) have "kind fs' (desc_path uid) = IsFile (rstrip (serialize_desc d) @ ''\<newline>'')"
    by (simp add: write_desc_def kind_write_text)
  then show ?thesis
    by (simp add: read_desc_def read_text_kind parse_serialize [OF assms(2)])
qed

lemma read_desc_cong:
  "kind fs' (desc_path u) = kind fs (desc_path u) \<Longrightarrow> read_desc fs' u = read_desc fs u"
  by (simp add: read_desc_def read_text_kind)

lemma dict_update_lookup:
  "map_of (dict_update cur flds) k = (case map_of (rev flds) k of Some v \<Rightarrow> Some v | None \<Rightarrow> map_of cur k)"
proof (induction flds arbitrary: cur)
  case Nil
  show ?case by (simp add: dict_update_def)
next
  case (Cons kv flds)
  obtain k' v' where kv: "kv = (k', v')" by (cases kv)
  have "dict_update cur (kv # flds) = dict_update (AList.update k' v' cur) flds"
    by (simp add: dict_update_def kv)
  with Cons [of "AList.update k' v' cur"] kv show ?case
    by (auto simp: update_conv map_add_def split: option.splits)
qed

lemma desc_ok_created:
  assumes "single_line source" "single_line knd" "single_line purpose"
  shows "desc_ok [(''source'', source), (''kind'', knd), (''purpose'', purpose)]"
    and "reserved_first [(''source'', source), (''kind'', knd), (''purpose'', purpose)]
         = [(''source'', source), (''kind'', knd), (''purpose'', purpose)]"
  using assms by (simp_all add: desc_ok_def key_ok_def is_key_char_def reserved_first_def DESC_ORDERED_def)

lemma ok_state: "r = Ok fs' \<Longrightarrow> state_of r = fs'"
  by simp

lemma desc_path_frames:
  "\<not> prefix (desc_path uid) (butlast (imports_path u))" "desc_path uid \<noteq> imports_path u"
  "\<not> prefix (desc_path uid) (butlast (shared_path u))" "desc_path uid \<noteq> shared_path u"
  "\<not> prefix (desc_path uid) (butlast (toc_path toc))" "desc_path uid \<noteq> toc_path toc"
  "\<not> prefix (desc_path uid) (exports_dir u)"
  "\<not> prefix (desc_path uid) (butlast (exports_dir u @ [w]))" "desc_path uid \<noteq> exports_dir u @ [w]"
  by (auto simp: desc_path_def imports_path_def shared_path_def toc_path_def exports_dir_def
      base_def DESC_FILE_def)

lemma create_object_desc:
  assumes "create_object fs hex source purpose knd toc = Ok fs'"
    and "single_line source" "single_line knd" "single_line purpose"
  shows "read_desc fs' (gen_uid ''object'' hex)
     = Inr [(''source'', strip source), (''kind'', strip knd), (''purpose'', strip purpose)]"
proof -
  let ?uid = "gen_uid ''object'' hex"
  let ?d = "[(''source'', source), (''kind'', knd), (''purpose'', purpose)]"
  from assms(1) obtain fs1 fs2 fs3 fs4 where
    2: "write_desc fs1 ?uid ?d = Ok fs2"
    and 3: "write_lines fs2 (imports_path ?uid) [] = Ok fs3"
    and 4: "write_lines fs3 (shared_path ?uid) [] = Ok fs4"
    and 5: "append_line_unique fs4 (toc_path toc) ?uid = Ok fs'"
    by (auto simp: create_object_def Let_def step_def and_then_def split: if_splits sum.splits result.splits)
  have "read_desc fs2 ?uid = Inr (map (\<lambda>(k, v). (k, strip v)) ?d)"
    using read_desc_after_write [OF 2 desc_ok_created(1) [OF assms(2-4)]]
      desc_ok_created(2) [OF assms(2-4)] by simp
  moreover have "kind fs3 (desc_path ?uid) = kind fs2 (desc_path ?uid)"
    using write_lines_frame [OF desc_path_frames(1,2) [of ?uid ?uid], of fs2 "[]"] 3 by simp
  moreover have "kind fs4 (desc_path ?uid) = kind fs3 (desc_path ?uid)"
    using write_lines_frame [OF desc_path_frames(3,4) [of ?uid ?uid], of fs3 "[]"] 4 by simp
  moreover have "kind fs' (desc_path ?uid) = kind fs4 (desc_path ?uid)"
    using append_line_unique_frame [OF desc_path_frames(5,6) [of ?uid toc], of fs4 ?uid] 5 by simp
  ultimately show ?thesis
    using read_desc_cong [of fs' ?uid fs4] read_desc_cong [of fs4 ?uid fs3]
      read_desc_cong [of fs3 ?uid fs2] by simp
qed

section \<open>What the recipient list contains\<close>

text \<open>A reason text as it is read back after it has been written.\<close>

definition stored_text :: "string \<Rightarrow> string" where
  "stored_text why = strip (universal_newlines (rstrip why @ ''\<newline>''))"

lemma stored_text_id:
  assumes "why = [] \<or> (\<not> is_space (hd why) \<and> \<not> is_space (last why))" "CHR 0x0D \<notin> set why"
  shows "stored_text why = why"
proof -
  have r: "rstrip why = why" using assms(1) by (intro rstrip_id) auto
  have "CHR 0x0D \<notin> set (why @ ''\<newline>'')" using assms(2) by simp
  then have u: "universal_newlines (why @ ''\<newline>'') = why @ ''\<newline>''"
    by (rule universal_newlines_id)
  have "is_space CHR 0x0A" by (simp add: is_space_def)
  from strip_snoc_space [OF this, of why] strip_id [OF assms(1)]
  show ?thesis by (simp add: stored_text_def r u)
qed

lemma read_text_written:
  "write_text fs p why = Ok fs' \<Longrightarrow> read_text fs' p = Inr (stored_text why)"
  by (simp add: read_text_kind kind_write_text stored_text_def)

lemma read_records_files:
  assumes "\<forall>f \<in> set names. is_file fs (d @ [f])"
  shows "\<exists>recs. read_records fs d names = Inr recs \<and> map fst recs = names
           \<and> (\<forall>f \<in> set names. read_text fs (d @ [f]) = Inr (the (map_of recs f)))"
  using assms
proof (induction names)
  case Nil
  show ?case by simp
next
  case (Cons f names)
  then obtain recs where r: "read_records fs d names = Inr recs" "map fst recs = names"
    "\<forall>f \<in> set names. read_text fs (d @ [f]) = Inr (the (map_of recs f))" by auto
  from Cons.prems obtain s where "kind fs (d @ [f]) = IsFile s" by (auto simp: is_file_kind)
  then have t: "read_text fs (d @ [f]) = Inr (strip (universal_newlines s))"
    by (simp add: read_text_kind)
  with r show ?case by auto
qed

lemma read_records_mem:
  "read_records fs d names = Inr recs \<Longrightarrow> (f, t) \<in> set recs \<Longrightarrow>
     f \<in> set names \<and> read_text fs (d @ [f]) = Inr t"
proof (induction names arbitrary: recs)
  case Nil
  then show ?case by simp
next
  case (Cons g names)
  then show ?case by (auto split: sum.splits)
qed

lemma read_records_has:
  "read_records fs d names = Inr recs \<Longrightarrow> f \<in> set names \<Longrightarrow>
     \<exists>t. read_text fs (d @ [f]) = Inr t \<and> (f, t) \<in> set recs"
proof (induction names arbitrary: recs)
  case Nil
  then show ?case by simp
next
  case (Cons g names)
  then show ?case by (auto split: sum.splits)
qed

lemma read_records_names: "read_records fs d names = Inr recs \<Longrightarrow> map fst recs = names"
proof (induction names arbitrary: recs)
  case Nil
  then show ?case by simp
next
  case (Cons g names)
  then show ?case by (auto split: sum.splits)
qed

lemma direct_recipients_mem:
  assumes "read_direct_recipients fs uid = Inr recs" "(f, t) \<in> set recs"
  shows "is_file fs (exports_dir uid @ [f])" "read_text fs (exports_dir uid @ [f]) = Inr t"
proof -
  let ?names = "filter (\<lambda>e. is_file fs (exports_dir uid @ [e])) (sort (iterdir fs (exports_dir uid)))"
  from assms have r: "read_records fs (exports_dir uid) ?names = Inr recs"
    by (auto simp: read_direct_recipients_def Let_def split: if_splits)
  from read_records_mem [OF r assms(2)]
  show "is_file fs (exports_dir uid @ [f])" "read_text fs (exports_dir uid @ [f]) = Inr t"
    by auto
qed

lemma direct_recipients_has:
  assumes "read_direct_recipients fs uid = Inr recs" "is_file fs (exports_dir uid @ [f])"
  shows "\<exists>t. read_text fs (exports_dir uid @ [f]) = Inr t \<and> (f, t) \<in> set recs"
proof -
  let ?names = "filter (\<lambda>e. is_file fs (exports_dir uid @ [e])) (sort (iterdir fs (exports_dir uid)))"
  from assms(2) have k2: "kind fs (exports_dir uid @ [f]) \<noteq> Absent" by (auto simp: is_file_kind)
  then have k1: "kind fs (exports_dir uid) = IsDir"
    by (rule kind_prefix_dir) (simp add: strict_prefix_def)
  from k1 k2 have "f \<in> set (iterdir fs (exports_dir uid))" by (simp add: mem_iterdir)
  with assms(2) have m: "f \<in> set ?names" by simp
  from assms(1) k1 have r: "read_records fs (exports_dir uid) ?names = Inr recs"
    by (simp add: read_direct_recipients_def Let_def is_dir_kind)
  from read_records_has [OF r m] show ?thesis .
qed

lemma pass_direct_mono: "pass_direct recs (seen, res) = (seen', res') \<Longrightarrow> set res \<subseteq> set res'"
proof (induction recs arbitrary: seen res)
  case Nil
  then show ?case by simp
next
  case (Cons r recs)
  obtain f t where "r = (f, t)" by (cases r)
  with Cons show ?case by (fastforce split: if_splits)
qed

lemma pass_direct_seen:
  "pass_direct recs (seen, res) = (seen', res') \<Longrightarrow> seen = fst ` set res \<Longrightarrow>
     seen' = fst ` set res' \<and> fst ` set res' = fst ` set res \<union> fst ` set recs"
proof (induction recs arbitrary: seen res)
  case Nil
  then show ?case by auto
next
  case (Cons r recs)
  obtain f t where r: "r = (f, t)" by (cases r)
  show ?case
  proof (cases "f \<in> seen")
    case True
    with Cons.prems r have "pass_direct recs (seen, res) = (seen', res')" by simp
    from Cons.IH [OF this Cons.prems(2)] True Cons.prems(2) r show ?thesis by auto
  next
    case False
    with Cons.prems r have p: "pass_direct recs (insert f seen, res @ [(f, t)]) = (seen', res')" by simp
    have "insert f seen = fst ` set (res @ [(f, t)])" using Cons.prems(2) by simp
    from Cons.IH [OF p this] r show ?thesis by auto
  qed
qed

lemma pass_direct_keeps:
  "pass_direct recs (seen, res) = (seen', res') \<Longrightarrow> distinct (map fst recs) \<Longrightarrow>
     fst ` set recs \<inter> seen = {} \<Longrightarrow> set recs \<subseteq> set res'"
proof (induction recs arbitrary: seen res)
  case Nil
  then show ?case by simp
next
  case (Cons r recs)
  obtain f t where r: "r = (f, t)" by (cases r)
  with Cons.prems have f: "f \<notin> seen" by auto
  with Cons.prems r have p: "pass_direct recs (insert f seen, res @ [(f, t)]) = (seen', res')" by simp
  have "fst ` set recs \<inter> insert f seen = {}" using Cons.prems r by auto
  with Cons.IH [OF p] Cons.prems(2) have "set recs \<subseteq> set res'" by simp
  moreover from pass_direct_mono [OF p] have "(f, t) \<in> set res'" by auto
  ultimately show ?case using r by simp
qed

lemma shared_recs_props:
  "shared_recs fs sub files (seen, res) = Inr (seen', res') \<Longrightarrow> seen = fst ` set res \<Longrightarrow>
     set res \<subseteq> set res' \<and> seen' = fst ` set res'
     \<and> fst ` set res' \<subseteq> fst ` set res \<union> {f \<in> set files. is_file fs (sub @ [f]) \<and> f \<noteq> DESC_FILE}
     \<and> (\<forall>f \<in> set files. is_file fs (sub @ [f]) \<and> f \<noteq> DESC_FILE \<and> f \<notin> seen \<longrightarrow>
           (\<exists>t. read_text fs (sub @ [f]) = Inr t \<and> (f, t) \<in> set res'))"
proof (induction files arbitrary: seen res)
  case Nil
  then show ?case by auto
next
  case (Cons f files)
  show ?case
  proof (cases "is_file fs (sub @ [f]) \<and> f \<noteq> DESC_FILE \<and> f \<notin> seen")
    case False
    then have "shared_recs fs sub (f # files) (seen, res) = shared_recs fs sub files (seen, res)"
      by auto
    with Cons.prems have p: "shared_recs fs sub files (seen, res) = Inr (seen', res')" by simp
    from Cons.IH [OF p Cons.prems(2)] False show ?thesis by auto
  next
    case True
    then have "shared_recs fs sub (f # files) (seen, res) =
        (case read_text fs (sub @ [f]) of Inl e \<Rightarrow> Inl e
         | Inr t \<Rightarrow> shared_recs fs sub files (insert f seen, res @ [(f, t)]))"
      by simp
    with Cons.prems obtain t where t: "read_text fs (sub @ [f]) = Inr t"
      and p: "shared_recs fs sub files (insert f seen, res @ [(f, t)]) = Inr (seen', res')"
      by (auto split: sum.splits)
    have s: "insert f seen = fst ` set (res @ [(f, t)])" using Cons.prems(2) by simp
    from Cons.IH [OF p s] have ih: "set (res @ [(f, t)]) \<subseteq> set res'" "seen' = fst ` set res'"
      "fst ` set res' \<subseteq> fst ` set (res @ [(f, t)]) \<union> {f \<in> set files. is_file fs (sub @ [f]) \<and> f \<noteq> DESC_FILE}"
      "\<forall>g \<in> set files. is_file fs (sub @ [g]) \<and> g \<noteq> DESC_FILE \<and> g \<notin> insert f seen \<longrightarrow>
           (\<exists>t. read_text fs (sub @ [g]) = Inr t \<and> (g, t) \<in> set res')"
      by auto
    have "\<exists>t. read_text fs (sub @ [g]) = Inr t \<and> (g, t) \<in> set res'"
      if "g \<in> set (f # files)" "is_file fs (sub @ [g]) \<and> g \<noteq> DESC_FILE \<and> g \<notin> seen" for g
    proof (cases "g = f")
      case True
      with t ih(1) show ?thesis by auto
    next
      case False
      with that ih(4) show ?thesis by auto
    qed
    with ih True show ?thesis by auto
  qed
qed


lemma subset_chain: "A \<subseteq> B \<union> Y1 \<Longrightarrow> C \<subseteq> A \<union> Y2 \<Longrightarrow> Y1 \<subseteq> Y \<Longrightarrow> Y2 \<subseteq> Y \<Longrightarrow> C \<subseteq> B \<union> Y"
  by blast

lemma subset_weaken: "C \<subseteq> B \<union> Y2 \<Longrightarrow> Y2 \<subseteq> Y \<Longrightarrow> C \<subseteq> B \<union> Y"
  by blast

lemma pass_shared_props:
  "pass_shared fs uid uids (seen, res) = Inr (seen', res') \<Longrightarrow> seen = fst ` set res \<Longrightarrow>
     set res \<subseteq> set res' \<and> seen' = fst ` set res'
     \<and> fst ` set res' \<subseteq> fst ` set res \<union> {f. \<exists>x \<in> set uids. is_file fs (exports_dir x @ [uid, f])}"
proof (induction uids arbitrary: seen res)
  case Nil
  then show ?case by auto
next
  case (Cons other rest)
  define sub where "sub = exports_dir other @ [uid]"
  define Y1 where "Y1 = {f. is_file fs (sub @ [f])}"
  define Y2 where "Y2 = {f. \<exists>x \<in> set rest. is_file fs (exports_dir x @ [uid, f])}"
  define Y where "Y = {f. \<exists>x \<in> set (other # rest). is_file fs (exports_dir x @ [uid, f])}"
  have y: "Y1 \<subseteq> Y" "Y2 \<subseteq> Y" by (auto simp: Y1_def Y2_def Y_def sub_def)
  from Cons.prems(1) obtain sh where sh: "read_shared fs other = Inr sh"
    by (cases "read_shared fs other") auto
  have goal: "set res \<subseteq> set res' \<and> seen' = fst ` set res' \<and> fst ` set res' \<subseteq> fst ` set res \<union> Y"
  proof (cases "uid \<in> set sh \<and> is_dir fs sub")
    case False
    with Cons.prems(1) sh have p: "pass_shared fs uid rest (seen, res) = Inr (seen', res')"
      by (auto simp: sub_def)
    from Cons.IH [OF p Cons.prems(2)] have ih: "set res \<subseteq> set res'" "seen' = fst ` set res'"
      "fst ` set res' \<subseteq> fst ` set res \<union> Y2" by (simp_all add: Y2_def)
    have "fst ` set res' \<subseteq> fst ` set res \<union> Y"
      by (rule subset_weaken [OF ih(3) y(2)])
    with ih show ?thesis by simp
  next
    case True
    have e: "pass_shared fs uid (other # rest) (seen, res) =
        (case shared_recs fs sub (sort (iterdir fs sub)) (seen, res) of
           Inl e \<Rightarrow> Inl e | Inr acc' \<Rightarrow> pass_shared fs uid rest acc')"
      using True sh by (simp add: sub_def)
    with Cons.prems(1) obtain seen1 res1 where
      1: "shared_recs fs sub (sort (iterdir fs sub)) (seen, res) = Inr (seen1, res1)"
      and p: "pass_shared fs uid rest (seen1, res1) = Inr (seen', res')"
      by (cases "shared_recs fs sub (sort (iterdir fs sub)) (seen, res)") auto
    from shared_recs_props [OF 1 Cons.prems(2)] have s: "set res \<subseteq> set res1" "seen1 = fst ` set res1"
      "fst ` set res1 \<subseteq> fst ` set res \<union> Y1" by (auto simp: Y1_def)
    from Cons.IH [OF p s(2)] have ih: "set res1 \<subseteq> set res'" "seen' = fst ` set res'"
      "fst ` set res' \<subseteq> fst ` set res1 \<union> Y2" by (simp_all add: Y2_def)
    have "fst ` set res' \<subseteq> fst ` set res \<union> Y"
      by (rule subset_chain [OF s(3) ih(3) y])
    moreover from s(1) ih(1) have "set res \<subseteq> set res'" by (rule subset_trans)
    ultimately show ?thesis using ih(2) by simp
  qed
  then show ?case by (simp add: Y_def)
qed

lemma pass_shared_finds:
  "pass_shared fs uid uids (seen, res) = Inr (seen', res') \<Longrightarrow> seen = fst ` set res \<Longrightarrow>
   E \<in> set uids \<Longrightarrow> read_shared fs E = Inr sh \<Longrightarrow> uid \<in> set sh \<Longrightarrow>
   is_file fs (exports_dir E @ [uid, I]) \<Longrightarrow> I \<noteq> DESC_FILE \<Longrightarrow> I \<notin> seen \<Longrightarrow>
   \<forall>x \<in> set uids. x \<noteq> E \<longrightarrow> \<not> is_file fs (exports_dir x @ [uid, I]) \<Longrightarrow>
   \<exists>t. read_text fs (exports_dir E @ [uid, I]) = Inr t \<and> (I, t) \<in> set res'"
proof (induction uids arbitrary: seen res)
  case Nil
  then show ?case by simp
next
  case (Cons other rest)
  let ?sub = "exports_dir other @ [uid]"
  from Cons.prems(1) obtain sh' where sh': "read_shared fs other = Inr sh'"
    by (auto split: sum.splits)
  show ?case
  proof (cases "other = E")
    case True
    from Cons.prems(6) have k2: "kind fs (?sub @ [I]) \<noteq> Absent" using True by (auto simp: is_file_kind)
    then have k1: "kind fs ?sub = IsDir"
      by (rule kind_prefix_dir) (simp add: strict_prefix_def)
    from k1 k2 have m: "I \<in> set (sort (iterdir fs ?sub))" by (simp add: mem_iterdir)
    from Cons.prems True sh' k1 obtain seen1 res1 where
      1: "shared_recs fs ?sub (sort (iterdir fs ?sub)) (seen, res) = Inr (seen1, res1)"
      and p: "pass_shared fs uid rest (seen1, res1) = Inr (seen', res')"
      by (auto simp: is_dir_kind split: sum.splits)
    from shared_recs_props [OF 1 Cons.prems(2)] m Cons.prems(6,7,8) True
    obtain t where t: "read_text fs (?sub @ [I]) = Inr t" "(I, t) \<in> set res1"
      and s: "seen1 = fst ` set res1" by auto
    from pass_shared_props [OF p s] t True show ?thesis by auto
  next
    case False
    with Cons.prems have nf: "\<not> is_file fs (?sub @ [I])" by simp
    from False Cons.prems have E: "E \<in> set rest" by simp
    have rest: "\<forall>x \<in> set rest. x \<noteq> E \<longrightarrow> \<not> is_file fs (exports_dir x @ [uid, I])"
      using Cons.prems(9) by simp
    show ?thesis
    proof (cases "uid \<in> set sh' \<and> is_dir fs ?sub")
      case False
      with Cons.prems(1) sh' have p: "pass_shared fs uid rest (seen, res) = Inr (seen', res')" by auto
      from Cons.IH [OF p Cons.prems(2) E Cons.prems(4-8) rest] show ?thesis .
    next
      case True
      with Cons.prems(1) sh' obtain seen1 res1 where
        1: "shared_recs fs ?sub (sort (iterdir fs ?sub)) (seen, res) = Inr (seen1, res1)"
        and p: "pass_shared fs uid rest (seen1, res1) = Inr (seen', res')"
        by (auto split: sum.splits)
      from shared_recs_props [OF 1 Cons.prems(2)] have s: "seen1 = fst ` set res1"
        "fst ` set res1 \<subseteq> fst ` set res \<union> {f. is_file fs (?sub @ [f])}" by auto
      with nf Cons.prems(2,8) have "I \<notin> seen1" by auto
      from Cons.IH [OF p s(1) E Cons.prems(4-7) this rest] show ?thesis .
    qed
  qed
qed

lemma pass_scan_props:
  "pass_scan fs uid uids (seen, res) = Inr (seen', res') \<Longrightarrow> seen = fst ` set res \<Longrightarrow>
     set res \<subseteq> set res' \<and> seen' = fst ` set res'
     \<and> fst ` set res' \<subseteq> fst ` set res
          \<union> {x \<in> set uids. \<exists>imps. read_imports fs x = Inr imps \<and> uid \<in> fst ` set imps}"
proof (induction uids arbitrary: seen res)
  case Nil
  then show ?case by auto
next
  case (Cons other rest)
  let ?Y2 = "{x \<in> set rest. \<exists>imps. read_imports fs x = Inr imps \<and> uid \<in> fst ` set imps}"
  let ?Y = "{x \<in> set (other # rest). \<exists>imps. read_imports fs x = Inr imps \<and> uid \<in> fst ` set imps}"
  have y: "?Y2 \<subseteq> ?Y" by auto
  show ?case
  proof (cases "other \<in> seen")
    case True
    with Cons.prems have p: "pass_scan fs uid rest (seen, res) = Inr (seen', res')" by simp
    from Cons.IH [OF p Cons.prems(2)] have ih: "set res \<subseteq> set res'" "seen' = fst ` set res'"
      "fst ` set res' \<subseteq> fst ` set res \<union> ?Y2" by auto
    have "fst ` set res' \<subseteq> fst ` set res \<union> ?Y"
      by (rule subset_weaken [OF ih(3) y])
    with ih show ?thesis by simp
  next
    case False
    with Cons.prems obtain imps where i: "read_imports fs other = Inr imps"
      by (auto split: sum.splits)
    show ?thesis
    proof (cases "uid \<in> set (map fst imps)")
      case True
      with False Cons.prems i have p:
        "pass_scan fs uid rest (insert other seen, res @ [(other, [])]) = Inr (seen', res')" by simp
      have "insert other seen = fst ` set (res @ [(other, [])])" using Cons.prems(2) by simp
      from Cons.IH [OF p this] have ih: "set (res @ [(other, [])]) \<subseteq> set res'" "seen' = fst ` set res'"
        "fst ` set res' \<subseteq> fst ` set (res @ [(other, [])]) \<union> ?Y2" by auto
      have "other \<in> ?Y" using i True by auto
      then have "fst ` set (res @ [(other, [])]) \<subseteq> fst ` set res \<union> ?Y" by auto
      from this ih(3) subset_refl y have "fst ` set res' \<subseteq> fst ` set res \<union> ?Y"
        by (rule subset_chain)
      moreover from ih(1) have "set res \<subseteq> set res'" by auto
      ultimately show ?thesis using ih(2) by simp
    next
      case nin: False
      with False Cons.prems i have p: "pass_scan fs uid rest (seen, res) = Inr (seen', res')" by simp
      from Cons.IH [OF p Cons.prems(2)] have ih: "set res \<subseteq> set res'" "seen' = fst ` set res'"
        "fst ` set res' \<subseteq> fst ` set res \<union> ?Y2" by auto
      have "fst ` set res' \<subseteq> fst ` set res \<union> ?Y"
      by (rule subset_weaken [OF ih(3) y])
      with ih show ?thesis by simp
    qed
  qed
qed

lemma all_importers_names:
  assumes "all_importers fs uid = Inr rs"
  shows "fst ` set rs \<subseteq> {f. is_file fs (exports_dir uid @ [f])}
     \<union> {f. \<exists>x \<in> set (all_uids fs). is_file fs (exports_dir x @ [uid, f])}
     \<union> {x \<in> set (all_uids fs). \<exists>imps. read_imports fs x = Inr imps \<and> uid \<in> fst ` set imps}"
proof -
  from assms obtain direct seen2 res2 seen3 where d: "read_direct_recipients fs uid = Inr direct"
    and 2: "pass_shared fs uid (all_uids fs) (pass_direct direct ({}, [])) = Inr (seen2, res2)"
    and 3: "pass_scan fs uid (all_uids fs) (seen2, res2) = Inr (seen3, rs)"
    by (auto simp: all_importers_def split: sum.splits prod.splits)
  obtain seen1 res1 where 1: "pass_direct direct ({}, []) = (seen1, res1)"
    by (cases "pass_direct direct ({}, [])")
  from pass_direct_seen [OF 1] have s1: "seen1 = fst ` set res1" "fst ` set res1 = fst ` set direct"
    by auto
  from pass_shared_props [of fs uid "all_uids fs" seen1 res1 seen2 res2] 2 1 s1
  have s2: "seen2 = fst ` set res2"
    "fst ` set res2 \<subseteq> fst ` set res1 \<union> {f. \<exists>x \<in> set (all_uids fs). is_file fs (exports_dir x @ [uid, f])}"
    by auto
  from pass_scan_props [OF 3 s2(1)]
  have s3: "fst ` set rs \<subseteq> fst ` set res2
          \<union> {x \<in> set (all_uids fs). \<exists>imps. read_imports fs x = Inr imps \<and> uid \<in> fst ` set imps}"
    by auto
  have s0: "fst ` set direct \<subseteq> {f. is_file fs (exports_dir uid @ [f])}"
    using direct_recipients_mem(1) [OF d] by auto
  let ?A = "{f. is_file fs (exports_dir uid @ [f])}"
  let ?B = "{f. \<exists>x \<in> set (all_uids fs). is_file fs (exports_dir x @ [uid, f])}"
  let ?C = "{x \<in> set (all_uids fs). \<exists>imps. read_imports fs x = Inr imps \<and> uid \<in> fst ` set imps}"
  from s0 s1(2) have "fst ` set res1 \<subseteq> ?A \<union> {}" by simp
  from this s2(2) have "fst ` set res2 \<subseteq> ?A \<union> ?B"
    by (rule subset_chain) simp_all
  then have "fst ` set res2 \<subseteq> (?A \<union> ?B) \<union> {}" by simp
  from this s3 show "fst ` set rs \<subseteq> ?A \<union> ?B \<union> ?C"
    by (rule subset_chain) simp_all
qed

lemma direct_recipients_distinct:
  "read_direct_recipients fs uid = Inr recs \<Longrightarrow> distinct (map fst recs)"
  by (auto simp: read_direct_recipients_def Let_def distinct_iterdir split: if_splits
      dest!: read_records_names)

lemma all_importers_direct:
  assumes "all_importers fs uid = Inr rs" "is_file fs (exports_dir uid @ [f])"
  shows "\<exists>t. read_text fs (exports_dir uid @ [f]) = Inr t \<and> (f, t) \<in> set rs"
proof -
  from assms obtain direct seen2 res2 seen3 where d: "read_direct_recipients fs uid = Inr direct"
    and 2: "pass_shared fs uid (all_uids fs) (pass_direct direct ({}, [])) = Inr (seen2, res2)"
    and 3: "pass_scan fs uid (all_uids fs) (seen2, res2) = Inr (seen3, rs)"
    by (auto simp: all_importers_def split: sum.splits prod.splits)
  obtain seen1 res1 where 1: "pass_direct direct ({}, []) = (seen1, res1)"
    by (cases "pass_direct direct ({}, [])")
  from direct_recipients_has [OF d assms(2)] obtain t where
    t: "read_text fs (exports_dir uid @ [f]) = Inr t" "(f, t) \<in> set direct" by auto
  from pass_direct_keeps [OF 1 direct_recipients_distinct [OF d]] t have "(f, t) \<in> set res1" by auto
  moreover from pass_direct_seen [OF 1] have s1: "seen1 = fst ` set res1" by auto
  moreover from pass_shared_props [of fs uid "all_uids fs" seen1 res1 seen2 res2] 2 1 s1
  have "set res1 \<subseteq> set res2" "seen2 = fst ` set res2" by auto
  moreover from pass_scan_props [OF 3 this(2)] have "set res2 \<subseteq> set rs" by auto
  ultimately show ?thesis using t by auto
qed

lemma all_importers_shared:
  assumes "all_importers fs uid = Inr rs"
    and "E \<in> set (all_uids fs)" "read_shared fs E = Inr sh" "uid \<in> set sh"
    and "is_file fs (exports_dir E @ [uid, I])" "I \<noteq> DESC_FILE"
    and "\<not> is_file fs (exports_dir uid @ [I])"
    and "\<forall>x \<in> set (all_uids fs). x \<noteq> E \<longrightarrow> \<not> is_file fs (exports_dir x @ [uid, I])"
  shows "\<exists>t. read_text fs (exports_dir E @ [uid, I]) = Inr t \<and> (I, t) \<in> set rs"
proof -
  from assms(1) obtain direct seen2 res2 seen3 where d: "read_direct_recipients fs uid = Inr direct"
    and 2: "pass_shared fs uid (all_uids fs) (pass_direct direct ({}, [])) = Inr (seen2, res2)"
    and 3: "pass_scan fs uid (all_uids fs) (seen2, res2) = Inr (seen3, rs)"
    by (auto simp: all_importers_def split: sum.splits prod.splits)
  obtain seen1 res1 where 1: "pass_direct direct ({}, []) = (seen1, res1)"
    by (cases "pass_direct direct ({}, [])")
  from pass_direct_seen [OF 1] have s1: "seen1 = fst ` set res1" "fst ` set res1 = fst ` set direct"
    by auto
  have "I \<notin> fst ` set direct"
    using direct_recipients_mem(1) [OF d] assms(7) by auto
  with s1 have n: "I \<notin> seen1" by simp
  from 2 1 have p2: "pass_shared fs uid (all_uids fs) (seen1, res1) = Inr (seen2, res2)" by simp
  from pass_shared_finds [OF p2 s1(1) assms(2-6) n assms(8)] obtain t where
    t: "read_text fs (exports_dir E @ [uid, I]) = Inr t" "(I, t) \<in> set res2" by auto
  from pass_shared_props [OF p2 s1(1)] have "seen2 = fst ` set res2" by auto
  from pass_scan_props [OF 3 this] t show ?thesis by auto
qed

text \<open>The reverse record of an edge, as \<open>add_import\<close>, \<open>update_import_why\<close> and
  \<open>remove_import\<close> address it.\<close>

definition record_path :: "string \<Rightarrow> string \<Rightarrow> string option \<Rightarrow> path" where
  "record_path importer imported exporter =
     (if truthy exporter then exports_dir (the exporter) @ [imported, importer]
      else exports_dir imported @ [importer])"

lemma add_import_record:
  assumes "add_import fs I M why ex = Ok fs'"
  shows "is_file fs' (record_path I M ex)" "read_text fs' (record_path I M ex) = Inr (stored_text why)"
proof -
  from assms obtain fs2 where w: "write_text fs2 (record_path I M ex) why = Ok fs'"
    by (auto simp: add_import_def and_then_def step_def Let_def record_path_def
        split: if_splits result.splits sum.splits)
  from kind_write_text [OF w, of "record_path I M ex"]
  show "is_file fs' (record_path I M ex)" by (simp add: is_file_kind)
  from read_text_written [OF w] show "read_text fs' (record_path I M ex) = Inr (stored_text why)" .
qed

lemma remove_import_record:
  assumes "remove_import fs I M ex = Ok fs'"
  shows "\<not> is_file fs' (record_path I M ex)"
proof -
  from assms obtain fs1 where f: "fs' = safe_unlink fs1 (record_path I M ex)"
    by (auto simp: remove_import_def and_then_def record_path_def
        split: if_splits result.splits sum.splits)
  show ?thesis
    unfolding f is_file_kind kind_safe_unlink
    by (auto simp: is_file_kind record_path_def exports_dir_def)
qed

lemma get_recipients_Inr: "get_recipients fs uid = Inr rs \<Longrightarrow> all_importers fs uid = Inr rs"
  by (auto simp: get_recipients_def split: if_splits)

section \<open>Example stores\<close>

text \<open>An initialised, empty store; a store with two objects; a store with a third object
  \<open>obj-c\<close> that shares \<open>obj-b\<close>; and that store after \<open>obj-a\<close> has imported \<open>obj-b\<close> through
  the exporter \<open>obj-c\<close>. Each is what the operations themselves
  produce.\<close>

definition empty_store :: node where
  "empty_store = Dir [(''.dsp'', Dir [])]"

definition store_ab :: node where
  "store_ab =
     Dir [(''.dsp'',
       Dir [(''obj-a'',
             Dir [(''description'', File ''source: src/a.py\<newline>kind: object\<newline>purpose: A thing\<newline>''),
                  (''imports'', File []), (''shared'', File [])]),
            (''TOC'', File ''obj-a\<newline>obj-b\<newline>''),
            (''obj-b'',
             Dir [(''description'', File ''source: src/b.py\<newline>kind: object\<newline>purpose: B thing\<newline>''),
                  (''imports'', File []), (''shared'', File [])])])]"

definition store_shared :: node where
  "store_shared =
     Dir [(''.dsp'',
       Dir [(''obj-a'',
             Dir [(''description'', File ''source: src/a.py\<newline>kind: object\<newline>purpose: A thing\<newline>''),
                  (''imports'', File []), (''shared'', File [])]),
            (''TOC'', File ''obj-a\<newline>obj-b\<newline>obj-c\<newline>''),
            (''obj-b'',
             Dir [(''description'', File ''source: src/b.py\<newline>kind: object\<newline>purpose: B thing\<newline>''),
                  (''imports'', File []), (''shared'', File [])]),
            (''obj-c'',
             Dir [(''description'', File ''source: src/c.py\<newline>kind: object\<newline>purpose: C thing\<newline>''),
                  (''imports'', File []), (''shared'', File ''obj-b\<newline>''),
                  (''exports'',
                   Dir [(''obj-b'',
                         Dir [(''description'', File ''B thing\<newline>'')])])])])]"

definition store_via :: node where
  "store_via =
     Dir [(''.dsp'',
       Dir [(''obj-a'',
             Dir [(''description'', File ''source: src/a.py\<newline>kind: object\<newline>purpose: A thing\<newline>''),
                  (''imports'', File ''obj-b via=obj-c\<newline>''), (''shared'', File [])]),
            (''TOC'', File ''obj-a\<newline>obj-b\<newline>obj-c\<newline>''),
            (''obj-b'',
             Dir [(''description'', File ''source: src/b.py\<newline>kind: object\<newline>purpose: B thing\<newline>''),
                  (''imports'', File []), (''shared'', File [])]),
            (''obj-c'',
             Dir [(''description'', File ''source: src/c.py\<newline>kind: object\<newline>purpose: C thing\<newline>''),
                  (''imports'', File []), (''shared'', File ''obj-b\<newline>''),
                  (''exports'',
                   Dir [(''obj-b'',
                         Dir [(''description'', File ''B thing\<newline>''),
                              (''obj-a'', File ''uses b\<newline>'')])])])])]"

text \<open>A store with one function entity; \<open>create_function\<close> writes no \<open>shared\<close> file.\<close>

definition store_f :: node where
  "store_f =
     Dir [(''.dsp'',
       Dir [(''func-f'',
             Dir [(''description'', File ''source: src/a.py#f\<newline>kind: function\<newline>purpose: F\<newline>''),
                  (''imports'', File [])]),
            (''TOC'', File ''func-f\<newline>'')])]"

lemma store_ab_reachable:
  "and_then (create_object empty_store ''a'' ''src/a.py'' ''A thing'' ''object'' None)
     (\<lambda>fs. create_object fs ''b'' ''src/b.py'' ''B thing'' ''object'' None) = Ok store_ab"
  by code_simp

lemma store_shared_reachable:
  "and_then (create_object store_ab ''c'' ''src/c.py'' ''C thing'' ''object'' None)
     (\<lambda>fs. create_shared fs ''obj-c'' [''obj-b'']) = Ok store_shared"
  by code_simp

lemma store_via_reachable:
  "add_import store_shared ''obj-a'' ''obj-b'' ''uses b'' (Some ''obj-c'') = Ok store_via"
  by code_simp

lemma store_f_reachable:
  "create_function empty_store ''f'' ''src/a.py#f'' ''F'' None None = Ok store_f"
  by code_simp

text \<open>Two objects that import each other.\<close>

definition store_cycle :: node where
  "store_cycle =
     state_of (add_import (state_of (add_import store_ab ''obj-a'' ''obj-b'' ''a needs b'' None))
       ''obj-b'' ''obj-a'' ''b needs a'' None)"

lemma store_cycle_edges:
  "read_imports store_cycle ''obj-a'' = Inr [(''obj-b'', None)]
   \<and> read_imports store_cycle ''obj-b'' = Inr [(''obj-a'', None)]"
  by code_simp

text \<open>\<open>store_ab\<close> after \<open>obj-a\<close> has imported \<open>obj-b\<close> directly, and \<open>store_via\<close> after that
  import has been removed again.\<close>

definition store_direct :: node where
  "store_direct = state_of (add_import store_ab ''obj-a'' ''obj-b'' ''  needs b '' None)"

definition store_unlinked :: node where
  "store_unlinked = state_of (remove_import store_via ''obj-a'' ''obj-b'' (Some ''obj-c''))"

text \<open>Three objects without edges; the same with the import edges a to b, b to c, c to a;
  and that with the further edge a to c.\<close>

definition store_abc :: node where
  "store_abc =
     Dir [(''.dsp'',
       Dir [(''obj-a'',
             Dir [(''description'', File ''source: src/a.py\<newline>kind: object\<newline>purpose: A thing\<newline>''),
                  (''imports'', File []), (''shared'', File [])]),
            (''TOC'', File ''obj-a\<newline>obj-b\<newline>obj-c\<newline>''),
            (''obj-b'',
             Dir [(''description'', File ''source: src/b.py\<newline>kind: object\<newline>purpose: B thing\<newline>''),
                  (''imports'', File []), (''shared'', File [])]),
            (''obj-c'',
             Dir [(''description'', File ''source: src/c.py\<newline>kind: object\<newline>purpose: C thing\<newline>''),
                  (''imports'', File []), (''shared'', File [])])])]"

definition store_triangle :: node where
  "store_triangle =
     state_of (add_import
       (state_of (add_import
          (state_of (add_import store_abc ''obj-a'' ''obj-b'' ''a needs b'' None))
          ''obj-b'' ''obj-c'' ''b needs c'' None))
       ''obj-c'' ''obj-a'' ''c needs a'' None)"

definition store_two_cycles :: node where
  "store_two_cycles = state_of (add_import store_triangle ''obj-a'' ''obj-c'' ''a needs c'' None)"

lemma store_triangle_cycles:
  "detect_cycles store_triangle = Some (Inr [[''obj-a'', ''obj-b'', ''obj-c'', ''obj-a'']])"
  by code_simp

lemma store_abc_cycles: "detect_cycles store_abc = Some (Inr [])"
  by code_simp

section \<open>Cycle detection: the search as a graph traversal\<close>

text \<open>The edges followed by \<open>detect_cycles\<close> are the entries of \<open>read_import_uids\<close>; a cycle is a
  closed chain of such edges of at least two nodes (first and last equal).\<close>

definition import_edge :: "node \<Rightarrow> string \<Rightarrow> string \<Rightarrow> bool" where
  "import_edge fs u v \<longleftrightarrow> (case read_import_uids fs u of Inl e \<Rightarrow> False | Inr uids \<Rightarrow> v \<in> set uids)"

fun is_path :: "node \<Rightarrow> string list \<Rightarrow> bool" where
  "is_path fs [] = True"
| "is_path fs [x] = True"
| "is_path fs (x # y # r) = (import_edge fs x y \<and> is_path fs (y # r))"

definition is_cycle :: "node \<Rightarrow> string list \<Rightarrow> bool" where
  "is_cycle fs p \<longleftrightarrow> 2 \<le> length p \<and> hd p = last p \<and> is_path fs p"

lemma is_path_append:
  "is_path fs (xs @ ys) \<longleftrightarrow>
     is_path fs xs \<and> is_path fs ys \<and> (xs \<noteq> [] \<and> ys \<noteq> [] \<longrightarrow> import_edge fs (last xs) (hd ys))"
proof (induction xs rule: is_path.induct [of _ fs])
  case (1 fs)
  show ?case by simp
next
  case (2 fs x)
  show ?case by (cases ys) auto
next
  case (3 fs x y r)
  then show ?case by auto
qed

lemma is_path_dropWhile: "is_path fs xs \<Longrightarrow> is_path fs (dropWhile P xs)"
proof (induction xs rule: is_path.induct [of _ fs])
  case (1 fs)
  show ?case by simp
next
  case (2 fs x)
  show ?case by simp
next
  case (3 fs x y r)
  then show ?case by auto
qed

lemma back_edge_cycle:
  assumes "is_path fs stack" "stack \<noteq> []" "v \<in> set stack" "import_edge fs (last stack) v"
  shows "is_cycle fs (dropWhile (\<lambda>x. x \<noteq> v) stack @ [v])"
proof -
  let ?s = "dropWhile (\<lambda>x. x \<noteq> v) stack"
  from assms(3) have ne: "?s \<noteq> []" by (simp add: dropWhile_eq_Nil_conv)
  then have h: "hd ?s = v" using hd_dropWhile [of "\<lambda>x. x \<noteq> v" stack] by simp
  have l: "last ?s = last stack"
    using ne by (metis assms(2) last_appendR takeWhile_dropWhile_id)
  have "is_path fs (?s @ [v])"
    using is_path_dropWhile [OF assms(1)] ne l assms(4) by (simp add: is_path_append)
  moreover have "hd (?s @ [v]) = v" using ne h by simp
  moreover have "2 \<le> length (?s @ [v])" using ne by (cases ?s) auto
  ultimately show ?thesis by (simp add: is_cycle_def)
qed

definition sound_state :: "node \<Rightarrow> string set \<Rightarrow> dfs_state \<Rightarrow> bool" where
  "sound_state fs D st \<longleftrightarrow>
     dom (color st) = D \<and> set (path_stack st) \<subseteq> D \<and> is_path fs (path_stack st)
     \<and> (\<forall>c \<in> set (cycles st). is_cycle fs c \<and> set c \<subseteq> D)"

lemma dfs_loop_sound_step:
  assumes D: "\<And>u st st'. dfs n fs u st = Some (Inr st') \<Longrightarrow> sound_state fs D st \<Longrightarrow>
      color st u = Some WHITE \<Longrightarrow>
      (path_stack st \<noteq> [] \<longrightarrow> import_edge fs (last (path_stack st)) u) \<Longrightarrow>
      sound_state fs D st' \<and> path_stack st' = path_stack st"
  shows "dfs_loop n fs imps st = Some (Inr st') \<Longrightarrow> sound_state fs D st \<Longrightarrow>
      path_stack st \<noteq> [] \<Longrightarrow> (\<forall>i \<in> set imps. import_edge fs (last (path_stack st)) i) \<Longrightarrow>
      sound_state fs D st' \<and> path_stack st' = path_stack st"
proof (induction imps arbitrary: st)
  case Nil
  then show ?case by simp
next
  case (Cons i imps)
  let ?c = "case color st i of None \<Rightarrow> - 1 | Some c \<Rightarrow> c"
  show ?case
  proof (cases "?c = GRAY")
    case True
    let ?cyc = "dropWhile (\<lambda>x. x \<noteq> i) (path_stack st) @ [i]"
    let ?st1 = "st\<lparr>cycles := cycles st @ [?cyc]\<rparr>"
    from True Cons.prems(1) have m: "i \<in> set (path_stack st)" and
      p: "dfs_loop n fs imps ?st1 = Some (Inr st')"
      by (auto simp: Let_def split: if_splits)
    from Cons.prems(2) have path: "is_path fs (path_stack st)" and sub: "set (path_stack st) \<subseteq> D"
      by (simp_all add: sound_state_def)
    have "is_cycle fs ?cyc"
      using back_edge_cycle [OF path Cons.prems(3) m] Cons.prems(4) by simp
    moreover have "set ?cyc \<subseteq> D"
      using sub m by (auto dest: set_dropWhileD)
    ultimately have "sound_state fs D ?st1"
      using Cons.prems(2) by (simp add: sound_state_def)
    from Cons.IH [OF p this] Cons.prems(3,4) show ?thesis by simp
  next
    case ng: False
    show ?thesis
    proof (cases "?c = WHITE")
      case True
      then have w: "color st i = Some WHITE"
        by (auto simp: WHITE_def split: option.splits)
      from True ng Cons.prems(1) obtain st1 where d: "dfs n fs i st = Some (Inr st1)"
        and p: "dfs_loop n fs imps st1 = Some (Inr st')"
        by (auto simp: Let_def split: if_splits option.splits sum.splits)
      from D [OF d Cons.prems(2) w] Cons.prems(4)
      have s: "sound_state fs D st1" "path_stack st1 = path_stack st" by simp_all
      from Cons.IH [OF p s(1)] s(2) Cons.prems(3,4) show ?thesis by simp
    next
      case False
      with ng Cons.prems(1) have "dfs_loop n fs imps st = Some (Inr st')"
        by (auto simp: Let_def split: if_splits)
      from Cons.IH [OF this Cons.prems(2,3)] Cons.prems(4) show ?thesis by simp
    qed
  qed
qed

lemma dfs_sound:
  "dfs n fs u st = Some (Inr st') \<Longrightarrow> sound_state fs D st \<Longrightarrow> color st u = Some WHITE \<Longrightarrow>
      (path_stack st \<noteq> [] \<longrightarrow> import_edge fs (last (path_stack st)) u) \<Longrightarrow>
      sound_state fs D st' \<and> path_stack st' = path_stack st"
proof (induction n arbitrary: u st st')
  case 0
  then show ?case by simp
next
  case (Suc n)
  let ?st1 = "st\<lparr>color := (color st)(u \<mapsto> GRAY), path_stack := path_stack st @ [u]\<rparr>"
  from Suc.prems(1) obtain imps st2 where i: "read_import_uids fs u = Inr imps"
    and l: "dfs_loop n fs imps ?st1 = Some (Inr st2)"
    and s: "st' = st2\<lparr>path_stack := butlast (path_stack st2), color := (color st2)(u \<mapsto> BLACK)\<rparr>"
    by (auto simp: Let_def split: sum.splits option.splits)
  from Suc.prems(3) have ud: "u \<in> dom (color st)" by auto
  have s1: "sound_state fs D ?st1"
    using Suc.prems(2,4) ud by (auto simp: sound_state_def is_path_append)
  have e: "\<forall>x \<in> set imps. import_edge fs (last (path_stack ?st1)) x"
    using i by (simp add: import_edge_def)
  have "sound_state fs D st2 \<and> path_stack st2 = path_stack ?st1"
    by (rule dfs_loop_sound_step [OF Suc.IH l s1 _ e]) simp_all
  then have s2: "sound_state fs D st2" and p2: "path_stack st2 = path_stack st @ [u]" by simp_all
  from s2 have "u \<in> D" "dom (color st2) = D" using p2 by (auto simp: sound_state_def)
  then have "dom (color st') = D" using s by auto
  with s2 p2 s Suc.prems(2) show ?case by (simp add: sound_state_def)
qed

definition whites :: "dfs_state \<Rightarrow> string set" where
  "whites st = {u. color st u = Some WHITE}"

lemma whites_simps:
  "whites (st\<lparr>cycles := cs\<rparr>) = whites st"
  "whites (st\<lparr>path_stack := ps\<rparr>) = whites st"
  "whites (st\<lparr>color := (color st)(u \<mapsto> GRAY)\<rparr>) = whites st - {u}"
  "whites (st\<lparr>color := (color st)(u \<mapsto> BLACK)\<rparr>) = whites st - {u}"
  by (auto simp: whites_def GRAY_def BLACK_def WHITE_def)

lemma dfs_loop_fuel_step:
  assumes D: "\<And>u st. color st u = Some WHITE \<Longrightarrow> finite (whites st) \<Longrightarrow> card (whites st) \<le> n \<Longrightarrow>
      dfs n fs u st \<noteq> None \<and> (\<forall>st'. dfs n fs u st = Some (Inr st') \<longrightarrow> whites st' \<subseteq> whites st - {u})"
  shows "finite (whites st) \<Longrightarrow> card (whites st) \<le> n \<Longrightarrow>
      dfs_loop n fs imps st \<noteq> None \<and> (\<forall>st'. dfs_loop n fs imps st = Some (Inr st') \<longrightarrow> whites st' \<subseteq> whites st)"
proof (induction imps arbitrary: st)
  case Nil
  show ?case by simp
next
  case (Cons i imps)
  let ?c = "case color st i of None \<Rightarrow> - 1 | Some c \<Rightarrow> c"
  show ?case
  proof (cases "?c = GRAY")
    case True
    let ?st1 = "st\<lparr>cycles := cycles st @ [dropWhile (\<lambda>x. x \<noteq> i) (path_stack st) @ [i]]\<rparr>"
    from Cons.IH [of ?st1] Cons.prems True show ?thesis
      by (auto simp: whites_simps Let_def)
  next
    case ng: False
    show ?thesis
    proof (cases "?c = WHITE")
      case True
      then have w: "color st i = Some WHITE"
        by (auto simp: WHITE_def split: option.splits)
      from D [OF w Cons.prems] have d: "dfs n fs i st \<noteq> None"
        and s: "\<And>st'. dfs n fs i st = Some (Inr st') \<Longrightarrow> whites st' \<subseteq> whites st - {i}" by auto
      show ?thesis
      proof (cases "dfs n fs i st")
        case None
        with d show ?thesis by simp
      next
        case (Some r)
        show ?thesis
        proof (cases r)
          case (Inl e)
          with Some ng True show ?thesis by (simp add: Let_def)
        next
          case (Inr st1)
          from s [of st1] Some Inr have sub: "whites st1 \<subseteq> whites st" by auto
          then have f: "finite (whites st1)" using Cons.prems(1) by (rule finite_subset)
          have c: "card (whites st1) \<le> n"
            using card_mono [OF Cons.prems(1) sub] Cons.prems(2) by simp
          from Cons.IH [OF f c] sub Some Inr ng True show ?thesis by (auto simp: Let_def)
        qed
      qed
    next
      case False
      with ng Cons.IH [OF Cons.prems] show ?thesis by (simp add: Let_def)
    qed
  qed
qed

lemma dfs_fuel:
  "color st u = Some WHITE \<Longrightarrow> finite (whites st) \<Longrightarrow> card (whites st) \<le> n \<Longrightarrow>
      dfs n fs u st \<noteq> None \<and> (\<forall>st'. dfs n fs u st = Some (Inr st') \<longrightarrow> whites st' \<subseteq> whites st - {u})"
proof (induction n arbitrary: u st)
  case 0
  then have "u \<in> whites st" "whites st = {}" by (auto simp: whites_def)
  then show ?case by simp
next
  case (Suc n)
  let ?st1 = "st\<lparr>color := (color st)(u \<mapsto> GRAY), path_stack := path_stack st @ [u]\<rparr>"
  have w: "whites ?st1 = whites st - {u}"
    by (auto simp: whites_def GRAY_def WHITE_def)
  have u: "u \<in> whites st" using Suc.prems(1) by (simp add: whites_def)
  have f: "finite (whites ?st1)" using Suc.prems(2) w by simp
  have c: "card (whites ?st1) \<le> n"
    using Suc.prems(2,3) u w by (simp add: card_Diff_singleton)
  have L: "dfs_loop n fs imps ?st1 \<noteq> None \<and>
      (\<forall>st'. dfs_loop n fs imps ?st1 = Some (Inr st') \<longrightarrow> whites st' \<subseteq> whites ?st1)" for imps
    by (rule dfs_loop_fuel_step [OF Suc.IH f c])
  show ?case
  proof (cases "read_import_uids fs u")
    case (Inl e)
    then show ?thesis by (simp add: Let_def)
  next
    case (Inr imps)
    show ?thesis
    proof (cases "dfs_loop n fs imps ?st1")
      case None
      with L [of imps] show ?thesis by simp
    next
      case (Some r)
      show ?thesis
      proof (cases r)
        case (Inl e)
        with Some Inr show ?thesis by (simp add: Let_def)
      next
        case st2: (Inr st2)
        from L [of imps] Some st2 have "whites st2 \<subseteq> whites st - {u}" using w by auto
        then have "whites (st2\<lparr>path_stack := butlast (path_stack st2),
                                   color := (color st2)(u \<mapsto> BLACK)\<rparr>) \<subseteq> whites st - {u}"
          by (auto simp: whites_def BLACK_def WHITE_def)
        with Some Inr st2 show ?thesis by (simp add: Let_def)
      qed
    qed
  qed
qed

lemma dfs_all_fuel:
  "finite (whites st) \<Longrightarrow> card (whites st) \<le> n \<Longrightarrow> dfs_all n fs uids st \<noteq> None"
proof (induction uids arbitrary: st)
  case Nil
  show ?case by simp
next
  case (Cons u uids)
  show ?case
  proof (cases "color st u = Some WHITE")
    case True
    from dfs_fuel [OF True Cons.prems] have d: "dfs n fs u st \<noteq> None"
      and s: "\<And>st'. dfs n fs u st = Some (Inr st') \<Longrightarrow> whites st' \<subseteq> whites st - {u}" by auto
    show ?thesis
    proof (cases "dfs n fs u st")
      case None
      with d show ?thesis by simp
    next
      case (Some r)
      show ?thesis
      proof (cases r)
        case (Inl e)
        with Some True show ?thesis by simp
      next
        case (Inr st1)
        from s [of st1] Some Inr have sub: "whites st1 \<subseteq> whites st" by auto
        then have f: "finite (whites st1)" using Cons.prems(1) by (rule finite_subset)
        have c: "card (whites st1) \<le> n"
          using card_mono [OF Cons.prems(1) sub] Cons.prems(2) by simp
        from Cons.IH [OF f c] Some Inr True show ?thesis by simp
      qed
    qed
  next
    case False
    with Cons.IH [OF Cons.prems] show ?thesis by simp
  qed
qed

lemma color_init: "fold (\<lambda>u c. c(u \<mapsto> WHITE)) uids c0 v = (if v \<in> set uids then Some WHITE else c0 v)"
  by (induction uids arbitrary: c0) auto

lemma whites_init: "whites (init_dfs_state uids) = set uids"
  by (auto simp: whites_def init_dfs_state_def color_init)

lemma detect_cycles_total: "detect_cycles fs \<noteq> None"
proof -
  have "dfs_all (length (all_uids fs)) fs (all_uids fs) (init_dfs_state (all_uids fs)) \<noteq> None"
    by (rule dfs_all_fuel) (simp_all add: whites_init card_length)
  then show ?thesis by (auto simp: detect_cycles_def split: sum.splits)
qed

lemma dfs_all_sound:
  "dfs_all n fs uids st = Some (Inr st') \<Longrightarrow> sound_state fs D st \<Longrightarrow> path_stack st = [] \<Longrightarrow>
     sound_state fs D st' \<and> path_stack st' = []"
proof (induction uids arbitrary: st)
  case Nil
  then show ?case by simp
next
  case (Cons u uids)
  show ?case
  proof (cases "color st u = Some WHITE")
    case True
    with Cons.prems(1) obtain st1 where d: "dfs n fs u st = Some (Inr st1)"
      and r: "dfs_all n fs uids st1 = Some (Inr st')"
      by (auto split: option.splits sum.splits)
    from dfs_sound [OF d Cons.prems(2) True] Cons.prems(3)
    have "sound_state fs D st1" "path_stack st1 = []" by simp_all
    from Cons.IH [OF r this] show ?thesis .
  next
    case False
    with Cons.prems(1) have "dfs_all n fs uids st = Some (Inr st')" by simp
    from Cons.IH [OF this Cons.prems(2,3)] show ?thesis .
  qed
qed

lemma detect_cycles_sound:
  assumes "detect_cycles fs = Some (Inr cs)" "c \<in> set cs"
  shows "is_cycle fs c \<and> set c \<subseteq> set (all_uids fs)"
proof -
  let ?st = "init_dfs_state (all_uids fs)"
  from assms(1) obtain st where d: "dfs_all (length (all_uids fs)) fs (all_uids fs) ?st = Some (Inr st)"
    and cs: "cs = cycles st"
    by (auto simp: detect_cycles_def split: if_splits option.splits sum.splits)
  have "dom (color ?st) = set (all_uids fs)"
    by (auto simp: init_dfs_state_def color_init dom_def)
  then have "sound_state fs (set (all_uids fs)) ?st"
    by (simp add: sound_state_def init_dfs_state_def)
  from dfs_all_sound [OF d this] have "sound_state fs (set (all_uids fs)) st"
    by (simp add: init_dfs_state_def)
  with cs assms(2) show ?thesis by (simp add: sound_state_def)
qed

lemma closed_path:
  assumes cl: "\<forall>u \<in> B. \<forall>v. import_edge fs u v \<longrightarrow> v \<in> D \<longrightarrow> v \<in> B"
  shows "is_path fs (v # q) \<Longrightarrow> v \<in> B \<Longrightarrow> set q \<subseteq> D \<Longrightarrow> set q \<subseteq> B"
proof (induction q arbitrary: v)
  case Nil
  show ?case by simp
next
  case (Cons w q)
  from Cons.prems cl have w: "w \<in> B" by auto
  from Cons.IH [OF _ w] Cons.prems w show ?case by simp
qed

lemma acyclic_insert:
  assumes cl: "\<forall>u \<in> B. \<forall>v. import_edge fs u v \<longrightarrow> v \<in> D \<longrightarrow> v \<in> B"
    and ac: "\<forall>p. is_cycle fs p \<longrightarrow> \<not> set p \<subseteq> B"
    and u: "u \<notin> B" "u \<in> D" and B: "B \<subseteq> D"
    and su: "\<forall>v. import_edge fs u v \<longrightarrow> v \<in> D \<longrightarrow> v \<in> B"
  shows "\<forall>p. is_cycle fs p \<longrightarrow> \<not> set p \<subseteq> insert u B"
proof (intro allI impI notI)
  fix p assume c: "is_cycle fs p" and s: "set p \<subseteq> insert u B"
  have D: "set p \<subseteq> D" using s u(2) B by auto
  from ac c have "\<not> set p \<subseteq> B" by simp
  with s have "u \<in> set p" by auto
  then obtain xs ys where p: "p = xs @ u # ys" and nx: "u \<notin> set xs"
    by (auto dest: split_list_first)
  from c have path: "is_path fs p" and hl: "hd p = last p" and len: "2 \<le> length p"
    by (simp_all add: is_cycle_def)
  show False
  proof (cases ys)
    case Nil
    with p len have "xs \<noteq> []" by auto
    with p Nil hl have "hd xs = u" by simp
    with \<open>xs \<noteq> []\<close> nx show False by (cases xs) auto
  next
    case (Cons v ys')
    from path p Cons have e: "import_edge fs u v" and pv: "is_path fs (v # ys')"
      by (simp_all add: is_path_append)
    from D p Cons have "v \<in> D" "set ys' \<subseteq> D" by auto
    with su e have v: "v \<in> B" by simp
    from closed_path [OF cl pv v \<open>set ys' \<subseteq> D\<close>] v have "last (v # ys') \<in> B"
      by (metis last_in_set list.distinct(1) set_ConsD subsetD)
    with p Cons have l: "last p \<in> B" by simp
    show False
    proof (cases xs)
      case Nil
      with p hl l u(1) show False by simp
    next
      case (Cons x xs')
      with p hl l have x: "x \<in> B" by simp
      from path p Cons have "is_path fs (x # (xs' @ [u]))"
        using is_path_append [of fs "xs @ [u]" ys] by simp
      from closed_path [OF cl this x] D p Cons u(2) have "u \<in> B" by auto
      with u(1) show False by simp
    qed
  qed
qed


definition blacks :: "dfs_state \<Rightarrow> string set" where
  "blacks st = {u. color st u = Some BLACK}"

definition dfs_inv :: "node \<Rightarrow> dfs_state \<Rightarrow> bool" where
  "dfs_inv fs st \<longleftrightarrow>
     (\<forall>u \<in> blacks st. \<forall>v. import_edge fs u v \<longrightarrow> v \<in> dom (color st) \<longrightarrow> v \<in> blacks st)
     \<and> (\<forall>p. is_cycle fs p \<longrightarrow> \<not> set p \<subseteq> blacks st)
     \<and> (\<forall>v c. color st v = Some c \<longrightarrow> c = WHITE \<or> c = GRAY \<or> c = BLACK)"

definition recolored :: "dfs_state \<Rightarrow> dfs_state \<Rightarrow> bool" where
  "recolored st st' \<longleftrightarrow>
     (\<forall>v. color st' v = color st v \<or> (color st v = Some WHITE \<and> color st' v = Some BLACK))"

lemma recolored_dom: "recolored st st' \<Longrightarrow> dom (color st') = dom (color st)"
  unfolding recolored_def dom_def by (auto, metis+)

lemma recolored_trans: "recolored st st1 \<Longrightarrow> recolored st1 st' \<Longrightarrow> recolored st st'"
  unfolding recolored_def by (metis WHITE_def BLACK_def option.inject zero_neq_numeral)

lemma recolored_black: "recolored st st' \<Longrightarrow> color st v = Some BLACK \<Longrightarrow> color st' v = Some BLACK"
  unfolding recolored_def by (metis WHITE_def BLACK_def option.inject zero_neq_numeral)

lemma recolored_gray: "recolored st st' \<Longrightarrow> color st v = Some GRAY \<Longrightarrow> color st' v = Some GRAY"
  unfolding recolored_def by (metis WHITE_def GRAY_def option.inject zero_neq_one)

lemma prefix_back:
  assumes "prefix a b" "prefix b c" "c = a"
  shows "b = a"
  using assms by (metis prefix_order.antisym)

definition dfs_post :: "node \<Rightarrow> dfs_state \<Rightarrow> dfs_state \<Rightarrow> string list \<Rightarrow> bool" where
  "dfs_post fs st st' done \<longleftrightarrow>
     prefix (cycles st) (cycles st') \<and>
     (cycles st' = cycles st \<longrightarrow> dfs_inv fs st \<longrightarrow>
        dfs_inv fs st' \<and> recolored st st' \<and>
        (\<forall>i \<in> set done. i \<in> dom (color st) \<longrightarrow> color st' i = Some BLACK))"

lemma dfs_loop_complete_step:
  assumes D: "\<And>u st st'. dfs n fs u st = Some (Inr st') \<Longrightarrow> color st u = Some WHITE \<Longrightarrow>
      dfs_post fs st st' [u]"
  shows "dfs_loop n fs imps st = Some (Inr st') \<Longrightarrow> dfs_post fs st st' imps"
proof (induction imps arbitrary: st)
  case Nil
  then show ?case by (simp add: dfs_post_def recolored_def)
next
  case (Cons i imps)
  let ?c = "case color st i of None \<Rightarrow> - 1 | Some c \<Rightarrow> c"
  show ?case
  proof (cases "?c = GRAY")
    case True
    let ?st1 = "st\<lparr>cycles := cycles st @ [dropWhile (\<lambda>x. x \<noteq> i) (path_stack st) @ [i]]\<rparr>"
    from True Cons.prems have "dfs_loop n fs imps ?st1 = Some (Inr st')"
      by (auto simp: Let_def split: if_splits)
    from Cons.IH [OF this] have p: "prefix (cycles ?st1) (cycles st')"
      by (simp add: dfs_post_def)
    then have "prefix (cycles st) (cycles st')" by (auto simp: prefix_def)
    moreover from p have "cycles st' \<noteq> cycles st" by (auto simp: prefix_def)
    ultimately show ?thesis by (simp add: dfs_post_def)
  next
    case ng: False
    show ?thesis
    proof (cases "?c = WHITE")
      case True
      then have w: "color st i = Some WHITE"
        by (auto simp: WHITE_def split: option.splits)
      from True ng Cons.prems obtain st1 where d: "dfs n fs i st = Some (Inr st1)"
        and l: "dfs_loop n fs imps st1 = Some (Inr st')"
        by (auto simp: Let_def split: option.splits sum.splits)
      from D [OF d w] have p1: "dfs_post fs st st1 [i]" .
      from Cons.IH [OF l] have p2: "dfs_post fs st1 st' imps" .
      from p1 p2 have pre: "prefix (cycles st) (cycles st')"
        by (auto simp: dfs_post_def)
      have "dfs_inv fs st' \<and> recolored st st' \<and>
        (\<forall>j \<in> set (i # imps). j \<in> dom (color st) \<longrightarrow> color st' j = Some BLACK)"
        if eq: "cycles st' = cycles st" and inv: "dfs_inv fs st"
      proof -
        from p1 p2 have "prefix (cycles st) (cycles st1)" "prefix (cycles st1) (cycles st')"
          by (simp_all add: dfs_post_def)
        from prefix_back [OF this eq] have e1: "cycles st1 = cycles st" .
        with p1 inv have i1: "dfs_inv fs st1" and r1: "recolored st st1"
          and b1: "color st1 i = Some BLACK" using w by (auto simp: dfs_post_def)
        from e1 eq p2 i1 have i2: "dfs_inv fs st'" and r2: "recolored st1 st'"
          and b2: "\<forall>j \<in> set imps. j \<in> dom (color st1) \<longrightarrow> color st' j = Some BLACK"
          by (simp_all add: dfs_post_def)
        from recolored_black [OF r2 b1] have "color st' i = Some BLACK" .
        with b2 recolored_dom [OF r1] recolored_trans [OF r1 r2] i2 show ?thesis by simp
      qed
      with pre show ?thesis by (simp add: dfs_post_def)
    next
      case False
      with ng Cons.prems have l: "dfs_loop n fs imps st = Some (Inr st')"
        by (auto simp: Let_def)
      from Cons.IH [OF l] have p2: "dfs_post fs st st' imps" .
      have "color st' i = Some BLACK"
        if inv: "dfs_inv fs st" and r: "recolored st st'" and d: "i \<in> dom (color st)"
      proof -
        from d obtain c where c: "color st i = Some c" by auto
        with inv have "c = WHITE \<or> c = GRAY \<or> c = BLACK" by (simp add: dfs_inv_def)
        with c ng False have "color st i = Some BLACK" by auto
        from recolored_black [OF r this] show ?thesis .
      qed
      with p2 show ?thesis by (auto simp: dfs_post_def)
    qed
  qed
qed

lemma dfs_complete:
  "dfs n fs u st = Some (Inr st') \<Longrightarrow> color st u = Some WHITE \<Longrightarrow> dfs_post fs st st' [u]"
proof (induction n arbitrary: u st st')
  case 0
  then show ?case by simp
next
  case (Suc n)
  let ?st1 = "st\<lparr>color := (color st)(u \<mapsto> GRAY), path_stack := path_stack st @ [u]\<rparr>"
  from Suc.prems(1) obtain imps st2 where i: "read_import_uids fs u = Inr imps"
    and l: "dfs_loop n fs imps ?st1 = Some (Inr st2)"
    and s: "st' = st2\<lparr>path_stack := butlast (path_stack st2), color := (color st2)(u \<mapsto> BLACK)\<rparr>"
    by (auto simp: Let_def split: sum.splits option.splits)
  have p: "dfs_post fs ?st1 st2 imps"
    by (rule dfs_loop_complete_step [OF Suc.IH l])
  then have pre: "prefix (cycles st) (cycles st')" using s by (simp add: dfs_post_def)
  have "dfs_inv fs st' \<and> recolored st st' \<and> color st' u = Some BLACK"
    if eq: "cycles st' = cycles st" and inv: "dfs_inv fs st"
  proof -
    have b1: "blacks ?st1 = blacks st" using Suc.prems(2)
      by (auto simp: blacks_def GRAY_def BLACK_def WHITE_def)
    have d1: "dom (color ?st1) = dom (color st)" using Suc.prems(2) by auto
    have i1: "dfs_inv fs ?st1"
      using inv unfolding dfs_inv_def b1 d1 by auto
    from eq s have "cycles st2 = cycles ?st1" by simp
    with p i1 have i2: "dfs_inv fs st2" and r: "recolored ?st1 st2"
      and b: "\<forall>i \<in> set imps. i \<in> dom (color ?st1) \<longrightarrow> color st2 i = Some BLACK"
      by (simp_all add: dfs_post_def)
    have g: "color st2 u = Some GRAY"
      by (rule recolored_gray [OF r]) simp
    then have nb: "u \<notin> blacks st2" by (simp add: blacks_def GRAY_def BLACK_def)
    have d2: "dom (color st2) = dom (color st)" using recolored_dom [OF r] d1 by simp
    have ud: "u \<in> dom (color st2)" using g by auto
    have su: "\<forall>v. import_edge fs u v \<longrightarrow> v \<in> dom (color st2) \<longrightarrow> v \<in> blacks st2"
      using i b d1 d2 by (auto simp: import_edge_def blacks_def)
    from i2 have cl: "\<forall>x \<in> blacks st2. \<forall>v. import_edge fs x v \<longrightarrow> v \<in> dom (color st2) \<longrightarrow> v \<in> blacks st2"
      and ac: "\<forall>p. is_cycle fs p \<longrightarrow> \<not> set p \<subseteq> blacks st2"
      and cv: "\<forall>v c. color st2 v = Some c \<longrightarrow> c = WHITE \<or> c = GRAY \<or> c = BLACK"
      by (simp_all add: dfs_inv_def)
    have sub: "blacks st2 \<subseteq> dom (color st2)" by (auto simp: blacks_def)
    have bs: "blacks st' = insert u (blacks st2)" using s by (auto simp: blacks_def)
    have ds: "dom (color st') = dom (color st2)" using s ud by auto
    have "\<forall>p. is_cycle fs p \<longrightarrow> \<not> set p \<subseteq> blacks st'"
      unfolding bs by (rule acyclic_insert [OF cl ac nb ud sub su])
    moreover have "\<forall>x \<in> blacks st'. \<forall>v. import_edge fs x v \<longrightarrow> v \<in> dom (color st') \<longrightarrow> v \<in> blacks st'"
      unfolding bs ds using cl su by auto
    moreover have "\<forall>v c. color st' v = Some c \<longrightarrow> c = WHITE \<or> c = GRAY \<or> c = BLACK"
      using cv s by auto
    ultimately have "dfs_inv fs st'" by (simp add: dfs_inv_def)
    moreover have "recolored st st'"
      unfolding recolored_def
    proof
      fix v
      show "color st' v = color st v \<or> (color st v = Some WHITE \<and> color st' v = Some BLACK)"
      proof (cases "v = u")
        case True
        with s Suc.prems(2) show ?thesis by simp
      next
        case False
        with r [unfolded recolored_def, rule_format, of v] s show ?thesis by simp
      qed
    qed
    moreover have "color st' u = Some BLACK" using s by simp
    ultimately show ?thesis by simp
  qed
  with pre Suc.prems(2) show ?case by (auto simp: dfs_post_def)
qed

lemma dfs_all_complete:
  "dfs_all n fs uids st = Some (Inr st') \<Longrightarrow> dfs_post fs st st' (filter (\<lambda>u. color st u \<noteq> Some GRAY) uids)"
proof (induction uids arbitrary: st)
  case Nil
  then show ?case by (simp add: dfs_post_def recolored_def)
next
  case (Cons u uids)
  show ?case
  proof (cases "color st u = Some WHITE")
    case True
    with Cons.prems obtain st1 where d: "dfs n fs u st = Some (Inr st1)"
      and l: "dfs_all n fs uids st1 = Some (Inr st')"
      by (auto split: option.splits sum.splits)
    from dfs_complete [OF d True] have p1: "dfs_post fs st st1 [u]" .
    from Cons.IH [OF l] have p2: "dfs_post fs st1 st' (filter (\<lambda>u. color st1 u \<noteq> Some GRAY) uids)" .
    from p1 p2 have pre: "prefix (cycles st) (cycles st')"
      by (auto simp: dfs_post_def)
    have "dfs_inv fs st' \<and> recolored st st' \<and>
        (\<forall>j \<in> set (filter (\<lambda>u. color st u \<noteq> Some GRAY) (u # uids)). j \<in> dom (color st) \<longrightarrow> color st' j = Some BLACK)"
      if eq: "cycles st' = cycles st" and inv: "dfs_inv fs st"
    proof -
      from p1 p2 have "prefix (cycles st) (cycles st1)" "prefix (cycles st1) (cycles st')"
        by (simp_all add: dfs_post_def)
      from prefix_back [OF this eq] have e1: "cycles st1 = cycles st" .
      with p1 inv have i1: "dfs_inv fs st1" and r1: "recolored st st1"
        and b1: "color st1 u = Some BLACK" using True by (auto simp: dfs_post_def)
      from e1 eq p2 i1 have i2: "dfs_inv fs st'" and r2: "recolored st1 st'"
        and b2: "\<forall>j \<in> set (filter (\<lambda>u. color st1 u \<noteq> Some GRAY) uids). j \<in> dom (color st1) \<longrightarrow> color st' j = Some BLACK"
        by (simp_all add: dfs_post_def)
      have ng: "color st j \<noteq> Some GRAY \<Longrightarrow> color st1 j \<noteq> Some GRAY" for j
        using r1 [unfolded recolored_def, rule_format, of j] by (auto simp: GRAY_def BLACK_def)
      from recolored_black [OF r2 b1] have "color st' u = Some BLACK" .
      with b2 ng recolored_dom [OF r1] recolored_trans [OF r1 r2] i2 show ?thesis by auto
    qed
    with pre show ?thesis by (simp add: dfs_post_def)
  next
    case False
    with Cons.prems have l: "dfs_all n fs uids st = Some (Inr st')" by simp
    from Cons.IH [OF l] have p2: "dfs_post fs st st' (filter (\<lambda>u. color st u \<noteq> Some GRAY) uids)" .
    have "color st' u = Some BLACK"
      if inv: "dfs_inv fs st" and r: "recolored st st'" and d: "u \<in> dom (color st)"
        and g: "color st u \<noteq> Some GRAY"
    proof -
      from d obtain c where c: "color st u = Some c" by auto
      with inv have "c = WHITE \<or> c = GRAY \<or> c = BLACK" by (simp add: dfs_inv_def)
      with c g False have "color st u = Some BLACK" by auto
      from recolored_black [OF r this] show ?thesis .
    qed
    with p2 show ?thesis by (auto simp: dfs_post_def)
  qed
qed

lemma is_cycle_nonempty: "is_cycle fs p \<Longrightarrow> set p \<noteq> {}"
  by (auto simp: is_cycle_def)

lemma detect_cycles_complete:
  assumes "detect_cycles fs = Some (Inr [])" "is_cycle fs p"
  shows "\<not> set p \<subseteq> set (all_uids fs)"
proof -
  let ?st = "init_dfs_state (all_uids fs)"
  from assms(1) obtain st' where d: "dfs_all (length (all_uids fs)) fs (all_uids fs) ?st = Some (Inr st')"
    and cs: "cycles st' = []"
    by (auto simp: detect_cycles_def split: if_splits option.splits sum.splits)
  have c0: "color ?st v = (if v \<in> set (all_uids fs) then Some WHITE else None)" for v
    by (simp add: init_dfs_state_def color_init)
  have "blacks ?st = {}" by (auto simp: blacks_def c0 WHITE_def BLACK_def)
  then have inv: "dfs_inv fs ?st"
    using is_cycle_nonempty by (auto simp: dfs_inv_def c0)
  have e: "cycles st' = cycles ?st" using cs by (simp add: init_dfs_state_def)
  have f: "filter (\<lambda>u. color ?st u \<noteq> Some GRAY) (all_uids fs) = all_uids fs"
    by (auto simp: c0 WHITE_def GRAY_def intro: filter_True)
  from dfs_all_complete [OF d] e inv f
  have i: "dfs_inv fs st'" and b: "\<forall>j \<in> set (all_uids fs). j \<in> dom (color ?st) \<longrightarrow> color st' j = Some BLACK"
    by (simp_all add: dfs_post_def)
  have "set (all_uids fs) \<subseteq> blacks st'"
    using b by (auto simp: blacks_def c0 dom_def)
  moreover from i assms(2) have "\<not> set p \<subseteq> blacks st'" by (simp add: dfs_inv_def)
  ultimately show ?thesis by auto
qed

section \<open>Failing on a missing entity\<close>

lemma add_import_missing_holder:
  assumes "\<not> entity_exists fs (if truthy exporter then the exporter else imported)"
  shows "\<exists>e fs'. add_import fs importer imported why exporter = Fail e fs'"
proof (cases "ensure_init fs \<and> entity_exists fs importer")
  case False
  then show ?thesis by (auto simp: add_import_def)
next
  case True
  let ?h = "if truthy exporter then the exporter else imported"
  let ?r = "append_line_unique fs (imports_path importer) (format_import_line imported exporter)"
  from True assms have ne: "?h \<noteq> importer" by auto
  have "kind (state_of ?r) (base @ [?h]) = kind fs (base @ [?h])"
    by (rule append_line_unique_frame) (use ne in \<open>auto simp: imports_path_def base_def\<close>)
  with assms have "\<not> entity_exists (state_of ?r) ?h"
    by (simp add: entity_exists_def is_dir_kind)
  with True show ?thesis
    by (cases ?r) (auto simp: add_import_def and_then_def state_of_def)
qed

text \<open>
  C3 (as amended). In an initialised store, every mutation operation other than the two that
  create an entity and other than \<open>update_import_why\<close> fails with \<open>EntityNotFound\<close>, and leaves
  the store as it was, when the entity it starts from (importer, exporter or uid) does not
  exist. \<open>add_import\<close> never succeeds when the entity that is to hold the reverse record (the
  exporter if one is given, else the imported entity) does not exist. \<open>update_import_why\<close>
  checks no entity: it fails with \<open>ReverseRecordNotFound\<close>, before any write, when the reverse
  record is absent, which is the case whenever the entity that would hold it does not exist.
\<close>

theorem missing_entity_rejected:
  assumes "ensure_init fs"
  shows
    "(\<not> entity_exists fs importer \<longrightarrow>
        add_import fs importer imported why exporter = Fail (EntityNotFound importer) fs
        \<and> remove_import fs importer imported exporter = Fail (EntityNotFound importer) fs)
     \<and> (\<not> entity_exists fs uid \<longrightarrow>
        update_description fs uid flds = Fail (EntityNotFound uid) fs
        \<and> move_entity fs uid new_source = Fail (EntityNotFound uid) fs
        \<and> remove_entity fs uid = Fail (EntityNotFound uid) fs
        \<and> create_shared fs uid shared_uids = Fail (EntityNotFound uid) fs
        \<and> remove_shared fs uid shared_uid = Fail (EntityNotFound uid) fs)
     \<and> (\<not> entity_exists fs (if truthy exporter then the exporter else imported) \<longrightarrow>
        (\<exists>e fs'. add_import fs importer imported why exporter = Fail e fs')
        \<and> update_import_why fs importer imported why exporter = Fail ReverseRecordNotFound fs)
     \<and> (\<not> path_exists fs (if truthy exporter then exports_dir (the exporter) @ [imported, importer]
                           else exports_dir imported @ [importer]) \<longrightarrow>
        update_import_why fs importer imported why exporter = Fail ReverseRecordNotFound fs)"
proof -
  have a: "\<not> path_exists fs (exports_dir h @ r)" if "\<not> entity_exists fs h" "r \<noteq> []" for h r
  proof -
    from that have "kind fs (base @ [h]) \<noteq> IsDir"
      by (simp add: entity_exists_def is_dir_kind)
    then have "kind fs ((base @ [h]) @ (''exports'' # r)) = Absent"
      by (rule kind_below_not_dir) simp
    then show ?thesis by (simp add: path_exists_kind exports_dir_def)
  qed
  have u: "update_import_why fs importer imported why exporter = Fail ReverseRecordNotFound fs"
    if "\<not> entity_exists fs (if truthy exporter then the exporter else imported)"
    using that assms a [of "the exporter" "[imported, importer]"] a [of imported "[importer]"]
    by (auto simp: update_import_why_def)
  show ?thesis
    using assms add_import_missing_holder [of fs exporter imported importer why] u
    by (auto simp: add_import_def remove_import_def update_description_def move_entity_def
        remove_entity_def create_shared_def remove_shared_def update_import_why_def)
qed

theorem missing_entity_rejected_witness:
  "ensure_init store_ab \<and> \<not> entity_exists store_ab ''obj-x''
   \<and> \<not> path_exists store_ab (exports_dir ''obj-x'' @ [''obj-a''])
   \<and> add_import store_ab ''obj-x'' ''obj-a'' ''w'' None = Fail (EntityNotFound ''obj-x'') store_ab
   \<and> remove_entity store_ab ''obj-x'' = Fail (EntityNotFound ''obj-x'') store_ab
   \<and> (\<exists>e fs'. add_import store_ab ''obj-a'' ''obj-x'' ''w'' None = Fail e fs')
   \<and> update_import_why store_ab ''obj-a'' ''obj-x'' ''w'' None = Fail ReverseRecordNotFound store_ab"
proof -
  have i: "ensure_init store_ab" by code_simp
  have n: "\<not> entity_exists store_ab ''obj-x''" by code_simp
  have p: "\<not> path_exists store_ab (exports_dir ''obj-x'' @ [''obj-a''])" by code_simp
  have t: "\<not> truthy None" by (simp add: truthy_def)
  from missing_entity_rejected [OF i, of "''obj-x''" "''obj-a''" "''w''" None "''obj-x''"] n
  have 1: "add_import store_ab ''obj-x'' ''obj-a'' ''w'' None = Fail (EntityNotFound ''obj-x'') store_ab"
    and 2: "remove_entity store_ab ''obj-x'' = Fail (EntityNotFound ''obj-x'') store_ab"
    by blast+
  from missing_entity_rejected [OF i, of "''obj-a''" "''obj-x''" "''w''" None "''obj-x''"] n t
  have 3: "\<exists>e fs'. add_import store_ab ''obj-a'' ''obj-x'' ''w'' None = Fail e fs'"
    and 4: "update_import_why store_ab ''obj-a'' ''obj-x'' ''w'' None = Fail ReverseRecordNotFound store_ab"
    by auto
  from i n p 1 2 3 4 show ?thesis by blast
qed

text \<open>
  C3 (as stated) fails: with the imported entity \<open>obj-x\<close> missing, \<open>update_import_why\<close> does
  not report \<open>EntityNotFound\<close>.
\<close>

theorem update_import_why_counterexample:
  "\<not> entity_exists store_ab ''obj-x''
   \<and> update_import_why store_ab ''obj-a'' ''obj-x'' ''w'' None \<noteq> Fail (EntityNotFound ''obj-x'') store_ab
   \<and> update_import_why store_ab ''obj-a'' ''obj-x'' ''w'' None = Fail ReverseRecordNotFound store_ab"
  by code_simp

text \<open>With the imported entity missing, \<open>add_import\<close> fails only after it has appended the edge
  to the importer's list.\<close>

lemma add_import_writes_before_check:
  "(case add_import store_ab ''obj-a'' ''obj-x'' ''w'' None of
      Ok fs' \<Rightarrow> False
    | Fail e fs' \<Rightarrow> e = EntityNotFound ''obj-x'' \<and> fs' \<noteq> store_ab
        \<and> read_imports store_ab ''obj-a'' = Inr []
        \<and> read_imports fs' ''obj-a'' = Inr [(''obj-x'', None)])"
  by code_simp

section \<open>Removing an import\<close>

text \<open>
  C8. In \<open>store_via\<close> the only edge of \<open>obj-a\<close> is \<open>obj-b via=obj-c\<close>, mirrored by the record
  \<open>obj-c/exports/obj-b/obj-a\<close>. \<open>remove_import\<close> without an exporter removes that edge, and leaves
  its reverse record in place: the file it unlinks is \<open>obj-b/exports/obj-a\<close>.
\<close>

theorem remove_import_leaves_via_record:
  "read_imports store_via ''obj-a'' = Inr [(''obj-b'', Some ''obj-c'')]
   \<and> (case remove_import store_via ''obj-a'' ''obj-b'' None of
        Fail e fs' \<Rightarrow> False
      | Ok fs' \<Rightarrow> read_imports fs' ''obj-a'' = Inr []
          \<and> read_text fs' (exports_dir ''obj-c'' @ [''obj-b'', ''obj-a'']) = Inr ''uses b''
          \<and> get_recipients fs' ''obj-b'' = Inr [(''obj-a'', ''uses b'')])"
  by code_simp

section \<open>Deleting what is not there\<close>

text \<open>
  C9 (as amended). \<open>safe_unlink\<close> and \<open>safe_rmtree\<close> return the tree itself when the target is
  not a file (not a directory). \<open>remove_line_value\<close>, on a list that can be read, lacks the
  value and lies in an existing directory, succeeds and reports that nothing was removed; the
  list reads as before and no other path changes, but the list file itself is written again
  (and created if it was absent). \<open>remove_import\<close> of an edge that the importer's readable list
  does not have succeeds, and the list reads as before (an empty \<open>via=\<close> is dropped).
\<close>

theorem deletion_of_absent_target:
  "(\<not> is_file fs p \<longrightarrow> safe_unlink fs p = fs)
   \<and> (\<not> is_dir fs p \<longrightarrow> safe_rmtree fs p = fs)
   \<and> (read_lines fs p = Inr ls \<and> target \<notin> set ls \<and> p \<noteq> [] \<and> is_dir fs (butlast p) \<longrightarrow>
        (\<exists>fs'. remove_line_value fs p target = (Ok fs', False)
           \<and> read_lines fs' p = Inr ls
           \<and> (\<forall>q. q \<noteq> p \<longrightarrow> kind fs' q = kind fs q)))
   \<and> (ensure_init fs \<and> entity_exists fs importer \<and> read_imports fs importer = Inr imps
        \<and> (\<forall>(u, v) \<in> set imps. \<not> (u = imported \<and> (exporter = None \<or> v = exporter))) \<longrightarrow>
        (\<exists>fs'. remove_import fs importer imported exporter = Ok fs'
           \<and> read_imports fs' importer = Inr (map norm_edge imps)))"
proof (intro conjI impI)
  show "safe_unlink fs p = fs" if "\<not> is_file fs p"
    using that by (simp add: safe_unlink_def)
  show "safe_rmtree fs p = fs" if "\<not> is_dir fs p"
    using that by (simp add: safe_rmtree_def)
next
  assume a: "read_lines fs p = Inr ls \<and> target \<notin> set ls \<and> p \<noteq> [] \<and> is_dir fs (butlast p)"
  then have f: "filter (\<lambda>ln. ln \<noteq> target) ls = ls" by (auto simp: filter_id_conv)
  from a obtain fs' where w: "write_lines fs p ls = Ok fs'"
    and k: "kind fs' = (kind fs)(p := IsFile (lines_text ls))"
    using write_lines_ok [of fs p ls] read_lines_not_dir [of fs p ls] by (auto simp: is_dir_kind)
  have "read_lines fs' p = Inr ls"
    using a read_lines_clean [of fs p ls] by (intro read_lines_of_text) (auto simp: k)
  with a f w k show "\<exists>fs'. remove_line_value fs p target = (Ok fs', False)
           \<and> read_lines fs' p = Inr ls \<and> (\<forall>q. q \<noteq> p \<longrightarrow> kind fs' q = kind fs q)"
    by (simp add: remove_line_value_def)
next
  assume a: "ensure_init fs \<and> entity_exists fs importer \<and> read_imports fs importer = Inr imps
        \<and> (\<forall>(u, v) \<in> set imps. \<not> (u = imported \<and> (exporter = None \<or> v = exporter)))"
  let ?ls = "map (\<lambda>(u, v). format_import_line u v) imps"
  let ?p = "imports_path importer"
  from a have l: "remove_import_loop imported exporter imps False = ?ls"
    by (intro remove_import_loop_no_match) auto
  from a have "kind fs (butlast ?p) = IsDir" "?p \<noteq> []" "kind fs ?p \<noteq> IsDir"
    using read_imports_not_dir [of fs importer imps]
    by (auto simp: entity_exists_def is_dir_kind imports_path_def base_def)
  then obtain fs1 where w: "write_lines fs ?p ?ls = Ok fs1"
    and k: "kind fs1 = (kind fs)(?p := IsFile (lines_text ?ls))"
    using write_lines_ok by blast
  have r1: "read_imports fs1 importer = Inr (map norm_edge imps)"
    using a read_imports_ok [of fs importer imps] by (intro read_imports_of_text) (auto simp: k)
  let ?q = "if truthy exporter then exports_dir (the exporter) @ [imported, importer]
            else exports_dir imported @ [importer]"
  have "?q \<noteq> ?p" by (auto simp: exports_dir_def imports_path_def)
  then have "kind (safe_unlink fs1 ?q) ?p = kind fs1 ?p"
    by (simp add: kind_safe_unlink)
  then have "read_imports (safe_unlink fs1 ?q) importer = Inr (map norm_edge imps)"
    using r1 read_imports_cong by metis
  moreover have "remove_import fs importer imported exporter = Ok (safe_unlink fs1 ?q)"
    using a l w by (simp add: remove_import_def and_then_def)
  ultimately show "\<exists>fs'. remove_import fs importer imported exporter = Ok fs'
           \<and> read_imports fs' importer = Inr (map norm_edge imps)"
    by auto
qed

theorem deletion_of_absent_target_witness:
  "\<not> is_file store_ab (exports_dir ''obj-b'' @ [''obj-a''])
   \<and> safe_unlink store_ab (exports_dir ''obj-b'' @ [''obj-a'']) = store_ab
   \<and> \<not> is_dir store_ab (exports_dir ''obj-b'' @ [''obj-a''])
   \<and> safe_rmtree store_ab (exports_dir ''obj-b'' @ [''obj-a'']) = store_ab
   \<and> read_lines store_ab (toc_path None) = Inr [''obj-a'', ''obj-b'']
   \<and> is_dir store_ab (butlast (toc_path None))
   \<and> (\<exists>fs'. remove_line_value store_ab (toc_path None) ''obj-c'' = (Ok fs', False)
         \<and> read_lines fs' (toc_path None) = Inr [''obj-a'', ''obj-b''])
   \<and> ensure_init store_ab \<and> entity_exists store_ab ''obj-a'' \<and> read_imports store_ab ''obj-a'' = Inr []
   \<and> (\<exists>fs'. remove_import store_ab ''obj-a'' ''obj-b'' None = Ok fs' \<and> read_imports fs' ''obj-a'' = Inr [])"
proof -
  have 1: "\<not> is_file store_ab (exports_dir ''obj-b'' @ [''obj-a''])" by code_simp
  have 2: "\<not> is_dir store_ab (exports_dir ''obj-b'' @ [''obj-a''])" by code_simp
  have 3: "read_lines store_ab (toc_path None) = Inr [''obj-a'', ''obj-b'']" by code_simp
  have 4: "is_dir store_ab (butlast (toc_path None))" by code_simp
  have 5: "toc_path None \<noteq> []" by code_simp
  have 6: "ensure_init store_ab" "entity_exists store_ab ''obj-a''" by code_simp+
  have 7: "read_imports store_ab ''obj-a'' = Inr []" by code_simp
  note t = deletion_of_absent_target [of store_ab _ _ "''obj-c''" "''obj-a''" "[]" "''obj-b''" None]
  from t [of "exports_dir ''obj-b'' @ [''obj-a'']" "[]"] 1 2
  have a: "safe_unlink store_ab (exports_dir ''obj-b'' @ [''obj-a'']) = store_ab"
    "safe_rmtree store_ab (exports_dir ''obj-b'' @ [''obj-a'']) = store_ab" by blast+
  from t [of "toc_path None" "[''obj-a'', ''obj-b'']"] 3 4 5
  have b: "\<exists>fs'. remove_line_value store_ab (toc_path None) ''obj-c'' = (Ok fs', False)
         \<and> read_lines fs' (toc_path None) = Inr [''obj-a'', ''obj-b'']" by auto
  from t [of "[]" "[]"] 6 7
  have c: "\<exists>fs'. remove_import store_ab ''obj-a'' ''obj-b'' None = Ok fs' \<and> read_imports fs' ''obj-a'' = Inr []"
    by auto
  from 1 2 3 4 6 7 a b c show ?thesis by blast
qed

text \<open>
  C9 (as stated) fails: the function entity \<open>func-f\<close> has no \<open>shared\<close> file, and
  \<open>remove_line_value\<close> on that absent file creates it, so the tree is not the one it was; the
  same happens through \<open>remove_shared\<close>.
\<close>

theorem remove_line_value_creates_file:
  "\<not> path_exists store_f (shared_path ''func-f'')
   \<and> read_lines store_f (shared_path ''func-f'') = Inr []
   \<and> (case fst (remove_line_value store_f (shared_path ''func-f'') ''obj-b'') of
        Fail e fs' \<Rightarrow> False
      | Ok fs' \<Rightarrow> fs' \<noteq> store_f \<and> is_file fs' (shared_path ''func-f''))
   \<and> (case remove_shared store_f ''func-f'' ''obj-b'' of
        Fail e fs' \<Rightarrow> False
      | Ok fs' \<Rightarrow> fs' \<noteq> store_f \<and> is_file fs' (shared_path ''func-f''))"
  by code_simp

section \<open>Orphans\<close>

lemma toc_roots_mem:
  "toc_roots fs tocs = Inr roots \<Longrightarrow> S \<in> roots \<Longrightarrow>
     \<exists>toc \<in> set tocs. \<exists>ls. read_lines fs toc = Inr ls \<and> ls \<noteq> [] \<and> hd ls = S"
proof (induction tocs arbitrary: roots)
  case Nil
  then show ?case by simp
next
  case (Cons toc rest)
  then show ?case
    by (fastforce split: sum.splits if_splits)
qed

lemma edge_refs_mem: "S \<in> edge_refs imps \<Longrightarrow> \<exists>(m, v) \<in> set imps. m = S \<or> v = Some S"
  by (auto simp: edge_refs_def truthy_def split: option.splits)

lemma imported_uids_mem:
  "imported_uids fs uids = Inr refs \<Longrightarrow> S \<in> refs \<Longrightarrow>
     \<exists>u \<in> set uids. \<exists>imps. read_imports fs u = Inr imps \<and> S \<in> edge_refs imps"
proof (induction uids arbitrary: refs)
  case Nil
  then show ?case by simp
next
  case (Cons u rest)
  then show ?case
    by (fastforce split: sum.splits)
qed

text \<open>
  C10. An entity \<open>S\<close> that another entity \<open>E\<close> lists as shared, that is the first line of no TOC
  file, that no import edge of any entity names as imported or via, and whose own \<open>exports\<close>
  directory is absent or empty, is in the result of \<open>get_orphans\<close>. \<open>create_shared\<close> for an
  exporter \<open>E\<close> changes nothing but \<open>E\<close>'s shared list and what lies on the path to or below
  \<open>E\<close>'s \<open>exports\<close> directory; everything at or below the \<open>exports\<close> directory of another
  entity \<open>S\<close> is as before.
\<close>

theorem shared_entity_is_orphan:
  "(get_orphans fs = Inr orphans \<and> S \<in> set (all_uids fs)
      \<and> E \<noteq> S \<and> read_shared fs E = Inr sh \<and> S \<in> set sh
      \<and> (\<forall>toc \<in> set (all_toc_paths fs). \<forall>ls. read_lines fs toc = Inr ls \<longrightarrow> ls = [] \<or> hd ls \<noteq> S)
      \<and> (\<forall>u \<in> set (all_uids fs). \<forall>imps. read_imports fs u = Inr imps \<longrightarrow>
            (\<forall>(m, v) \<in> set imps. m \<noteq> S \<and> v \<noteq> Some S))
      \<and> (\<not> is_dir fs (exports_dir S) \<or> iterdir fs (exports_dir S) = [])
    \<longrightarrow> S \<in> set orphans)
   \<and> (E \<noteq> S \<longrightarrow>
        (\<forall>q. kind (state_of (create_shared fs E sids)) (exports_dir S @ q) = kind fs (exports_dir S @ q)))
   \<and> (\<forall>q. \<not> prefix q (exports_dir E) \<and> \<not> prefix (exports_dir E) q \<and> q \<noteq> shared_path E \<longrightarrow>
        kind (state_of (create_shared fs E sids)) q = kind fs q)"
proof (intro conjI impI allI)
  assume a: "get_orphans fs = Inr orphans \<and> S \<in> set (all_uids fs)
      \<and> E \<noteq> S \<and> read_shared fs E = Inr sh \<and> S \<in> set sh
      \<and> (\<forall>toc \<in> set (all_toc_paths fs). \<forall>ls. read_lines fs toc = Inr ls \<longrightarrow> ls = [] \<or> hd ls \<noteq> S)
      \<and> (\<forall>u \<in> set (all_uids fs). \<forall>imps. read_imports fs u = Inr imps \<longrightarrow>
            (\<forall>(m, v) \<in> set imps. m \<noteq> S \<and> v \<noteq> Some S))
      \<and> (\<not> is_dir fs (exports_dir S) \<or> iterdir fs (exports_dir S) = [])"
  then obtain roots imported where r: "toc_roots fs (all_toc_paths fs) = Inr roots"
    and i: "imported_uids fs (all_uids fs) = Inr imported"
    and o: "orphans = filter (\<lambda>uid. uid \<notin> roots \<and> uid \<notin> imported
               \<and> \<not> (is_dir fs (exports_dir uid) \<and> iterdir fs (exports_dir uid) \<noteq> [])) (all_uids fs)"
    by (auto simp: get_orphans_def split: if_splits sum.splits)
  have "S \<notin> roots"
    using toc_roots_mem [OF r, of S] a by blast
  moreover have "S \<notin> imported"
  proof
    assume "S \<in> imported"
    from imported_uids_mem [OF i this] obtain u imps where "u \<in> set (all_uids fs)"
      "read_imports fs u = Inr imps" "S \<in> edge_refs imps" by blast
    with a edge_refs_mem [of S imps] show False by blast
  qed
  ultimately show "S \<in> set orphans" using a o by auto
next
  fix q
  assume "E \<noteq> S"
  then show "kind (state_of (create_shared fs E sids)) (exports_dir S @ q) = kind fs (exports_dir S @ q)"
    by (intro create_shared_frame) (auto simp: exports_dir_def shared_path_def prefix_def base_def)
next
  fix q
  assume "\<not> prefix q (exports_dir E) \<and> \<not> prefix (exports_dir E) q \<and> q \<noteq> shared_path E"
  then show "kind (state_of (create_shared fs E sids)) q = kind fs q"
    by (intro create_shared_frame) auto
qed

theorem shared_entity_is_orphan_witness:
  "get_orphans store_shared = Inr [''obj-b''] \<and> ''obj-b'' \<in> set (all_uids store_shared)
   \<and> ''obj-c'' \<noteq> ''obj-b'' \<and> read_shared store_shared ''obj-c'' = Inr [''obj-b'']
   \<and> all_toc_paths store_shared = [toc_path None]
   \<and> read_lines store_shared (toc_path None) = Inr [''obj-a'', ''obj-b'', ''obj-c'']
   \<and> all_uids store_shared = [''obj-a'', ''obj-b'', ''obj-c'']
   \<and> read_imports store_shared ''obj-a'' = Inr [] \<and> read_imports store_shared ''obj-b'' = Inr []
   \<and> read_imports store_shared ''obj-c'' = Inr []
   \<and> \<not> is_dir store_shared (exports_dir ''obj-b'')
   \<and> ''obj-b'' \<in> set [''obj-b'']
   \<and> kind (state_of (create_shared store_shared ''obj-c'' [''obj-a''])) (exports_dir ''obj-b'' @ [])
       = kind store_shared (exports_dir ''obj-b'' @ [])"
proof -
  have o: "get_orphans store_shared = Inr [''obj-b'']" by code_simp
  have u: "all_uids store_shared = [''obj-a'', ''obj-b'', ''obj-c'']" by code_simp
  have s: "read_shared store_shared ''obj-c'' = Inr [''obj-b'']" by code_simp
  have t: "all_toc_paths store_shared = [toc_path None]" by code_simp
  have l: "read_lines store_shared (toc_path None) = Inr [''obj-a'', ''obj-b'', ''obj-c'']"
    by code_simp
  have i: "read_imports store_shared ''obj-a'' = Inr []" "read_imports store_shared ''obj-b'' = Inr []"
    "read_imports store_shared ''obj-c'' = Inr []" by code_simp+
  have e: "\<not> is_dir store_shared (exports_dir ''obj-b'')" by code_simp
  have n: "''obj-c'' \<noteq> ''obj-b''" by simp
  note w = shared_entity_is_orphan [of store_shared "[''obj-b'']" "''obj-b''" "''obj-c''" "[''obj-b'']" "[''obj-a'']"]
  have 1: "''obj-b'' \<in> set [''obj-b'']"
    using w o u s t l i e n by auto
  have 2: "kind (state_of (create_shared store_shared ''obj-c'' [''obj-a''])) (exports_dir ''obj-b'' @ [])
       = kind store_shared (exports_dir ''obj-b'' @ [])"
    using w n by blast
  from o u s t l i e n 1 2 show ?thesis by simp
qed

section \<open>Tree traversal\<close>

text \<open>The nodes of a result tree in the order in which the traversal made them, and the marking
  that one visited set, shared by the whole traversal, gives them.\<close>

fun flatten :: "tnode \<Rightarrow> tnode list" where
  "flatten (TNode u k p sub c w) = TNode u k p sub c w # concat (map flatten sub)"

fun marks_ok :: "string set \<Rightarrow> tnode list \<Rightarrow> bool" where
  "marks_ok V [] = True"
| "marks_ok V (n # ns) =
     ((n_cycle n \<longleftrightarrow> n_uid n \<in> V) \<and> (n_cycle n \<longrightarrow> n_sub n = [])
      \<and> marks_ok (insert (n_uid n) V) ns)"

lemma marks_ok_append:
  "marks_ok V (xs @ ys) \<longleftrightarrow> marks_ok V xs \<and> marks_ok (V \<union> set (map n_uid xs)) ys"
  by (induction xs arbitrary: V) (auto simp: insert_commute Un_commute)

lemma walk_children_marks:
  "(walk_children fs d u V = Inr (n, V') \<longrightarrow>
      marks_ok V (flatten n) \<and> V' = V \<union> set (map n_uid (flatten n)) \<and> n_uid n = u)
   \<and> (walk_children_list fs d us V = Inr (ns, V') \<longrightarrow>
      marks_ok V (concat (map flatten ns)) \<and> V' = V \<union> set (map n_uid (concat (map flatten ns)))
      \<and> map n_uid ns = us)"
proof (induction d arbitrary: u us V V' n ns)
  case 0
  have w: "marks_ok V (flatten n) \<and> V' = V \<union> set (map n_uid (flatten n)) \<and> n_uid n = u"
    if "walk_children fs 0 u V = Inr (n, V')" for u V n V'
    using that by (auto split: sum.splits if_splits)
  have "walk_children_list fs 0 us V = Inr (ns, V') \<Longrightarrow>
      marks_ok V (concat (map flatten ns)) \<and> V' = V \<union> set (map n_uid (concat (map flatten ns)))
      \<and> map n_uid ns = us" for us V ns V'
  proof (induction us arbitrary: V ns V')
    case Nil
    then show ?case by simp
  next
    case (Cons x xs)
    then obtain m V1 ms where 1: "walk_children fs 0 x V = Inr (m, V1)"
      and 2: "walk_children_list fs 0 xs V1 = Inr (ms, V')" and 3: "ns = m # ms"
      by (auto split: sum.splits prod.splits)
    from w [OF 1] Cons.IH [OF 2] 3 show ?case
      by (auto simp: marks_ok_append)
  qed
  with w show ?case by blast
next
  case (Suc d)
  have l: "walk_children_list fs d us V = Inr (ns, V') \<Longrightarrow>
      marks_ok V (concat (map flatten ns)) \<and> V' = V \<union> set (map n_uid (concat (map flatten ns)))
      \<and> map n_uid ns = us" for us V ns V'
    using Suc.IH by blast
  have w: "marks_ok V (flatten n) \<and> V' = V \<union> set (map n_uid (flatten n)) \<and> n_uid n = u"
    if "walk_children fs (Suc d) u V = Inr (n, V')" for u V n V'
  proof (cases "u \<in> V")
    case True
    with that show ?thesis by (auto split: sum.splits)
  next
    case False
    with that obtain desc imps sub where "read_imports fs u = Inr imps"
      and s: "walk_children_list fs d (map fst imps) (insert u V) = Inr (sub, V')"
      and n: "n = TNode u (dict_get desc ''kind'' []) (dict_get desc ''purpose'' []) sub False None"
      by (auto split: sum.splits prod.splits)
    from l [OF s] n False show ?thesis by auto
  qed
  have "walk_children_list fs (Suc d) us V = Inr (ns, V') \<Longrightarrow>
      marks_ok V (concat (map flatten ns)) \<and> V' = V \<union> set (map n_uid (concat (map flatten ns)))
      \<and> map n_uid ns = us" for us V ns V'
  proof (induction us arbitrary: V ns V')
    case Nil
    then show ?case by simp
  next
    case (Cons x xs)
    then obtain m V1 ms where 1: "walk_children fs (Suc d) x V = Inr (m, V1)"
      and 2: "walk_children_list fs (Suc d) xs V1 = Inr (ms, V')" and 3: "ns = m # ms"
      by (auto split: sum.splits prod.splits)
    from w [OF 1] Cons.IH [OF 2] 3 show ?case
      by (auto simp: marks_ok_append)
  qed
  with w show ?case by blast
qed


lemma walk_parents_marks:
  "(walk_parents fs d u why V = Inr (n, V') \<longrightarrow>
      marks_ok V (flatten n) \<and> V' = V \<union> set (map n_uid (flatten n)) \<and> n_uid n = u)
   \<and> (walk_parents_list fs d recs V = Inr (ns, V') \<longrightarrow>
      marks_ok V (concat (map flatten ns)) \<and> V' = V \<union> set (map n_uid (concat (map flatten ns)))
      \<and> map n_uid ns = map fst recs)"
proof (induction d arbitrary: u why recs V V' n ns)
  case 0
  have w: "marks_ok V (flatten n) \<and> V' = V \<union> set (map n_uid (flatten n)) \<and> n_uid n = u"
    if "walk_parents fs 0 u why V = Inr (n, V')" for u why V n V'
    using that by (auto split: sum.splits if_splits)
  have "walk_parents_list fs 0 recs V = Inr (ns, V') \<Longrightarrow>
      marks_ok V (concat (map flatten ns)) \<and> V' = V \<union> set (map n_uid (concat (map flatten ns)))
      \<and> map n_uid ns = map fst recs" for recs V ns V'
  proof (induction recs arbitrary: V ns V')
    case Nil
    then show ?case by simp
  next
    case (Cons x xs)
    obtain r y where x: "x = (r, y)" by (cases x)
    with Cons.prems obtain m V1 ms where 1: "walk_parents fs 0 r (Some y) V = Inr (m, V1)"
      and 2: "walk_parents_list fs 0 xs V1 = Inr (ms, V')" and 3: "ns = m # ms"
      by (auto split: sum.splits prod.splits)
    from w [OF 1] Cons.IH [OF 2] 3 x show ?case
      by (auto simp: marks_ok_append)
  qed
  with w show ?case by blast
next
  case (Suc d)
  have l: "walk_parents_list fs d recs V = Inr (ns, V') \<Longrightarrow>
      marks_ok V (concat (map flatten ns)) \<and> V' = V \<union> set (map n_uid (concat (map flatten ns)))
      \<and> map n_uid ns = map fst recs" for recs V ns V'
    using Suc.IH by blast
  have w: "marks_ok V (flatten n) \<and> V' = V \<union> set (map n_uid (flatten n)) \<and> n_uid n = u"
    if "walk_parents fs (Suc d) u why V = Inr (n, V')" for u why V n V'
  proof (cases "u \<in> V")
    case True
    with that show ?thesis by (auto split: sum.splits)
  next
    case False
    with that obtain desc recs sub where "all_importers fs u = Inr recs"
      and s: "walk_parents_list fs d recs (insert u V) = Inr (sub, V')"
      and n: "n = TNode u (dict_get desc ''kind'' []) (dict_get desc ''purpose'' []) sub False why"
      by (auto split: sum.splits prod.splits)
    from l [OF s] n False show ?thesis by auto
  qed
  have "walk_parents_list fs (Suc d) recs V = Inr (ns, V') \<Longrightarrow>
      marks_ok V (concat (map flatten ns)) \<and> V' = V \<union> set (map n_uid (concat (map flatten ns)))
      \<and> map n_uid ns = map fst recs" for recs V ns V'
  proof (induction recs arbitrary: V ns V')
    case Nil
    then show ?case by simp
  next
    case (Cons x xs)
    obtain r y where x: "x = (r, y)" by (cases x)
    with Cons.prems obtain m V1 ms where 1: "walk_parents fs (Suc d) r (Some y) V = Inr (m, V1)"
      and 2: "walk_parents_list fs (Suc d) xs V1 = Inr (ms, V')" and 3: "ns = m # ms"
      by (auto split: sum.splits prod.splits)
    from w [OF 1] Cons.IH [OF 2] 3 x show ?case
      by (auto simp: marks_ok_append)
  qed
  with w show ?case by blast
qed

lemma marks_ok_distinct:
  "marks_ok V ns \<Longrightarrow>
     distinct (map n_uid (filter (\<lambda>n. \<not> n_cycle n) ns))
     \<and> set (map n_uid (filter (\<lambda>n. \<not> n_cycle n) ns)) \<inter> V = {}"
proof (induction ns arbitrary: V)
  case Nil
  then show ?case by simp
next
  case (Cons n ns)
  then have "marks_ok (insert (n_uid n) V) ns" by simp
  from Cons.IH [OF this] Cons.prems show ?case by auto
qed

text \<open>
  C7. \<open>walk_children\<close> and \<open>walk_parents\<close> recurse on the depth, which every call lowers by one, so
  \<open>get_children\<close> and \<open>get_parents\<close> are total functions: they return for every tree, every
  uid and every depth, cyclic import graph or not. Whenever they return a tree, its nodes in
  the order of the traversal (\<open>flatten\<close>) are marked as follows (\<open>marks_ok\<close>, with the one
  visited set, empty at the start): a node is flagged \<open>cycle\<close> exactly if its uid has occurred
  earlier anywhere in the traversal, and a flagged node has no children; so no uid is
  expanded twice. The root carries the requested uid and is not flagged, and for a depth of 0
  (or less) it has no children.
\<close>

theorem traversal_marks_revisits:
  "(get_children fs uid depth = Inr n \<longrightarrow>
      n_uid n = uid \<and> \<not> n_cycle n \<and> marks_ok {} (flatten n)
      \<and> distinct (map n_uid (filter (\<lambda>n. \<not> n_cycle n) (flatten n)))
      \<and> (depth \<le> 0 \<longrightarrow> n_sub n = []))
   \<and> (get_parents fs uid depth = Inr n \<longrightarrow>
      n_uid n = uid \<and> \<not> n_cycle n \<and> marks_ok {} (flatten n)
      \<and> distinct (map n_uid (filter (\<lambda>n. \<not> n_cycle n) (flatten n)))
      \<and> (depth \<le> 0 \<longrightarrow> n_sub n = []))"
proof (intro conjI impI)
  assume "get_children fs uid depth = Inr n"
  then obtain V where w: "walk_children fs (nat depth) uid {} = Inr (n, V)"
    by (auto simp: get_children_def split: if_splits sum.splits)
  from walk_children_marks [of fs "nat depth" uid "{}" n V] w
  have m: "marks_ok {} (flatten n)" and u: "n_uid n = uid" by auto
  from m show "marks_ok {} (flatten n)" .
  from u show "n_uid n = uid" .
  from m show "\<not> n_cycle n" by (cases n) simp
  from marks_ok_distinct [OF m] show "distinct (map n_uid (filter (\<lambda>n. \<not> n_cycle n) (flatten n)))"
    by simp
  show "n_sub n = []" if "depth \<le> 0"
    using that w by (auto split: sum.splits if_splits)
next
  assume "get_parents fs uid depth = Inr n"
  then obtain V where w: "walk_parents fs (nat depth) uid None {} = Inr (n, V)"
    by (auto simp: get_parents_def split: if_splits sum.splits)
  from walk_parents_marks [of fs "nat depth" uid None "{}" n V] w
  have m: "marks_ok {} (flatten n)" and u: "n_uid n = uid" by auto
  from m show "marks_ok {} (flatten n)" .
  from u show "n_uid n = uid" .
  from m show "\<not> n_cycle n" by (cases n) simp
  from marks_ok_distinct [OF m] show "distinct (map n_uid (filter (\<lambda>n. \<not> n_cycle n) (flatten n)))"
    by simp
  show "n_sub n = []" if "depth \<le> 0"
    using that w by (auto split: sum.splits if_splits)
qed

theorem traversal_marks_revisits_witness:
  "get_children store_cycle ''obj-a'' 5 =
     Inr (TNode ''obj-a'' ''object'' ''A thing''
           [TNode ''obj-b'' ''object'' ''B thing''
             [TNode ''obj-a'' ''object'' ''A thing'' [] True None] False None] False None)
   \<and> get_parents store_cycle ''obj-a'' 5 =
     Inr (TNode ''obj-a'' ''object'' ''A thing''
           [TNode ''obj-b'' ''object'' ''B thing''
             [TNode ''obj-a'' ''object'' ''A thing'' [] True (Some ''a needs b'')] False
             (Some ''b needs a'')] False None)
   \<and> marks_ok {} (flatten (TNode ''obj-a'' ''object'' ''A thing''
           [TNode ''obj-b'' ''object'' ''B thing''
             [TNode ''obj-a'' ''object'' ''A thing'' [] True None] False None] False None))
   \<and> marks_ok {} (flatten (TNode ''obj-a'' ''object'' ''A thing''
           [TNode ''obj-b'' ''object'' ''B thing''
             [TNode ''obj-a'' ''object'' ''A thing'' [] True (Some ''a needs b'')] False
             (Some ''b needs a'')] False None))
   \<and> get_children store_cycle ''obj-a'' 0 = Inr (TNode ''obj-a'' ''object'' ''A thing'' [] False None)
   \<and> n_sub (TNode ''obj-a'' ''object'' ''A thing'' [] False None) = []"
proof -
  have c: "get_children store_cycle ''obj-a'' 5 =
     Inr (TNode ''obj-a'' ''object'' ''A thing''
           [TNode ''obj-b'' ''object'' ''B thing''
             [TNode ''obj-a'' ''object'' ''A thing'' [] True None] False None] False None)"
    by code_simp
  have p: "get_parents store_cycle ''obj-a'' 5 =
     Inr (TNode ''obj-a'' ''object'' ''A thing''
           [TNode ''obj-b'' ''object'' ''B thing''
             [TNode ''obj-a'' ''object'' ''A thing'' [] True (Some ''a needs b'')] False
             (Some ''b needs a'')] False None)"
    by code_simp
  have z: "get_children store_cycle ''obj-a'' 0 = Inr (TNode ''obj-a'' ''object'' ''A thing'' [] False None)"
    by code_simp
  from traversal_marks_revisits [of store_cycle "''obj-a''" 5] c p
    traversal_marks_revisits [of store_cycle "''obj-a''" 0] z
  show ?thesis by (simp del: marks_ok.simps flatten.simps)
qed

section \<open>Description round trip\<close>

text \<open>
  C4 (as amended). A description mapping whose keys are non-empty words over \<open>a\<close> to \<open>z\<close> and
  \<open>_\<close>, and whose values contain no line boundary, is read back with its reserved keys
  \<open>source\<close>, \<open>kind\<close>, \<open>purpose\<close> first and the other keys in their order, each value stripped
  of leading and trailing white space (so exactly, for values that have none). This holds for
  the mapping that \<open>update_description\<close> writes, which is the current mapping with the given
  fields put over it key by key (\<open>dict_update\<close>: a given key is overwritten, every other key
  keeps its value), as \<open>read_desc\<close> and as \<open>get_entity\<close> return it, and for the three fields
  that \<open>create_object\<close> writes.
\<close>

theorem description_round_trip:
  "(update_description fs uid flds = Ok fs' \<and> read_desc fs uid = Inr cur
      \<and> desc_ok (dict_update cur flds) \<longrightarrow>
      read_desc fs' uid = Inr (map (\<lambda>(k, v). (k, strip v)) (reserved_first (dict_update cur flds)))
      \<and> (\<forall>e. get_entity fs' uid = Inr e \<longrightarrow>
            e_description e = map (\<lambda>(k, v). (k, strip v)) (reserved_first (dict_update cur flds))))
   \<and> (\<forall>k. map_of (dict_update cur flds) k
          = (case map_of (rev flds) k of Some v \<Rightarrow> Some v | None \<Rightarrow> map_of cur k))
   \<and> (create_object fs hex source purpose knd toc = Ok fs'
      \<and> single_line source \<and> single_line knd \<and> single_line purpose \<longrightarrow>
      read_desc fs' (gen_uid ''object'' hex)
        = Inr [(''source'', strip source), (''kind'', strip knd), (''purpose'', strip purpose)])"
proof (intro conjI impI allI)
  assume a: "update_description fs uid flds = Ok fs' \<and> read_desc fs uid = Inr cur
      \<and> desc_ok (dict_update cur flds)"
  then have "write_desc fs uid (dict_update cur flds) = Ok fs'"
    by (auto simp: update_description_def split: if_splits)
  from read_desc_after_write [OF this] a
  show r: "read_desc fs' uid = Inr (map (\<lambda>(k, v). (k, strip v)) (reserved_first (dict_update cur flds)))"
    by simp
  fix e assume "get_entity fs' uid = Inr e"
  with r show "e_description e = map (\<lambda>(k, v). (k, strip v)) (reserved_first (dict_update cur flds))"
    by (auto simp: get_entity_def split: if_splits sum.splits)
next
  fix k
  show "map_of (dict_update cur flds) k
          = (case map_of (rev flds) k of Some v \<Rightarrow> Some v | None \<Rightarrow> map_of cur k)"
    by (rule dict_update_lookup)
next
  assume "create_object fs hex source purpose knd toc = Ok fs'
      \<and> single_line source \<and> single_line knd \<and> single_line purpose"
  then show "read_desc fs' (gen_uid ''object'' hex)
        = Inr [(''source'', strip source), (''kind'', strip knd), (''purpose'', strip purpose)]"
    using create_object_desc by blast
qed

theorem description_round_trip_witness:
  "read_desc store_ab ''obj-a'' = Inr [(''source'', ''src/a.py''), (''kind'', ''object''), (''purpose'', ''A thing'')]
   \<and> desc_ok (dict_update [(''source'', ''src/a.py''), (''kind'', ''object''), (''purpose'', ''A thing'')]
        [(''owner'', ''team a''), (''purpose'', '' An updated thing '')])
   \<and> (case update_description store_ab ''obj-a'' [(''owner'', ''team a''), (''purpose'', '' An updated thing '')] of
        Fail e fs' \<Rightarrow> False
      | Ok fs' \<Rightarrow>
          read_desc fs' ''obj-a'' = Inr [(''source'', ''src/a.py''), (''kind'', ''object''),
             (''purpose'', ''An updated thing''), (''owner'', ''team a'')])
   \<and> single_line ''src/c.py'' \<and> single_line ''object'' \<and> single_line ''C thing''
   \<and> (case create_object store_ab ''c'' ''src/c.py'' ''C thing'' ''object'' None of
        Fail e fs' \<Rightarrow> False
      | Ok fs' \<Rightarrow>
          read_desc fs' ''obj-c'' = Inr [(''source'', ''src/c.py''), (''kind'', ''object''), (''purpose'', ''C thing'')])"
proof -
  let ?cur = "[(''source'', ''src/a.py''), (''kind'', ''object''), (''purpose'', ''A thing'')]"
  let ?flds = "[(''owner'', ''team a''), (''purpose'', '' An updated thing '')]"
  have r: "read_desc store_ab ''obj-a'' = Inr ?cur" by code_simp
  have d: "desc_ok (dict_update ?cur ?flds)" by code_simp
  obtain fs' where u: "update_description store_ab ''obj-a'' ?flds = Ok fs'"
    by (cases "update_description store_ab ''obj-a'' ?flds") (simp_all, code_simp)
  have v: "map (\<lambda>(k, v). (k, strip v)) (reserved_first (dict_update ?cur ?flds))
      = [(''source'', ''src/a.py''), (''kind'', ''object''), (''purpose'', ''An updated thing''), (''owner'', ''team a'')]"
    by code_simp
  have s: "single_line ''src/c.py''" "single_line ''object''" "single_line ''C thing''" by code_simp+
  obtain fs'' where c: "create_object store_ab ''c'' ''src/c.py'' ''C thing'' ''object'' None = Ok fs''"
    by (cases "create_object store_ab ''c'' ''src/c.py'' ''C thing'' ''object'' None") (simp_all, code_simp)
  have g: "gen_uid ''object'' ''c'' = ''obj-c''" by code_simp
  have t: "strip ''src/c.py'' = ''src/c.py''" "strip ''object'' = ''object''" "strip ''C thing'' = ''C thing''"
    by code_simp+
  from description_round_trip [where fs = store_ab and uid = "''obj-a''" and flds = ?flds
      and fs' = fs' and cur = ?cur] u r d v
  have 1: "read_desc fs' ''obj-a'' = Inr [(''source'', ''src/a.py''), (''kind'', ''object''),
             (''purpose'', ''An updated thing''), (''owner'', ''team a'')]" by simp
  from description_round_trip [where fs = store_ab and fs' = fs'' and hex = "''c''"
      and source = "''src/c.py''" and purpose = "''C thing''" and knd = "''object''" and toc = None] c s g t
  have 2: "read_desc fs'' ''obj-c'' = Inr [(''source'', ''src/c.py''), (''kind'', ''object''), (''purpose'', ''C thing'')]"
    by simp
  from r d u 1 s c 2 show ?thesis by simp
qed

text \<open>
  C4 (as stated) fails: a value with white space around it does not come back as it was
  written.
\<close>

theorem description_round_trip_counterexample:
  "(case update_description store_ab ''obj-a'' [(''purpose'', '' padded '')] of
      Fail e fs' \<Rightarrow> False
    | Ok fs' \<Rightarrow>
        (case get_entity fs' ''obj-a'' of
           Inl e \<Rightarrow> False
         | Inr e \<Rightarrow> map_of (e_description e) ''purpose'' = Some ''padded''
             \<and> map_of (e_description e) ''purpose'' \<noteq> Some '' padded ''))"
  by code_simp

text \<open>Nor does a value with a line that looks like a field: it overwrites that field.\<close>

lemma description_embedded_key:
  "(case update_description store_ab ''obj-a'' [(''purpose'', ''two lines\<newline>kind: external'')] of
      Fail e fs' \<Rightarrow> False
    | Ok fs' \<Rightarrow>
        read_desc fs' ''obj-a''
          = Inr [(''source'', ''src/a.py''), (''kind'', ''external''), (''purpose'', ''two lines'')])"
  by code_simp

section \<open>Edge symmetry\<close>

text \<open>
  C1 (as amended). After a successful \<open>add_import\<close> without an exporter, every result of
  \<open>get_recipients\<close> for the imported entity \<open>M\<close> contains the importer \<open>I\<close> with the reason as
  it is stored, which is the reason given with the white space around it removed. After a
  successful \<open>add_import\<close> with an exporter \<open>E\<close>, the same holds for \<open>get_recipients\<close> of \<open>M\<close>
  (not of \<open>E\<close>), if \<open>E\<close> is an enumerated entity whose shared list has \<open>M\<close> and \<open>I\<close> has no other
  reverse record for \<open>M\<close>, neither at \<open>M\<close> itself nor under another entity. After a successful
  \<open>remove_import\<close>, \<open>get_recipients\<close> of \<open>M\<close> does not list \<open>I\<close> any more, if \<open>I\<close> has no other
  reverse record for \<open>M\<close> and no edge that is left in \<open>I\<close>'s list imports \<open>M\<close>.
\<close>

theorem edge_symmetry:
  "(add_import fs I M why ex = Ok fs' \<and> \<not> truthy ex \<and> get_recipients fs' M = Inr rs \<longrightarrow>
      (I, stored_text why) \<in> set rs)
   \<and> (add_import fs I M why ex = Ok fs' \<and> truthy ex \<and> get_recipients fs' M = Inr rs
        \<and> the ex \<in> set (all_uids fs') \<and> read_shared fs' (the ex) = Inr sh \<and> M \<in> set sh
        \<and> I \<noteq> DESC_FILE \<and> \<not> is_file fs' (exports_dir M @ [I])
        \<and> (\<forall>x \<in> set (all_uids fs'). x \<noteq> the ex \<longrightarrow> \<not> is_file fs' (exports_dir x @ [M, I])) \<longrightarrow>
      (I, stored_text why) \<in> set rs)
   \<and> (remove_import fs I M ex = Ok fs' \<and> get_recipients fs' M = Inr rs
        \<and> (truthy ex \<longrightarrow> \<not> is_file fs' (exports_dir M @ [I]))
        \<and> (\<forall>x \<in> set (all_uids fs'). (truthy ex \<longrightarrow> x \<noteq> the ex) \<longrightarrow>
              \<not> is_file fs' (exports_dir x @ [M, I]))
        \<and> (\<forall>imps. read_imports fs' I = Inr imps \<longrightarrow> M \<notin> fst ` set imps) \<longrightarrow>
      I \<notin> fst ` set rs)
   \<and> ((why = [] \<or> \<not> is_space (hd why) \<and> \<not> is_space (last why)) \<and> CHR 0x0D \<notin> set why \<longrightarrow>
      stored_text why = why)"
proof (intro conjI impI)
  assume a: "add_import fs I M why ex = Ok fs' \<and> \<not> truthy ex \<and> get_recipients fs' M = Inr rs"
  then have r: "is_file fs' (exports_dir M @ [I])"
    "read_text fs' (exports_dir M @ [I]) = Inr (stored_text why)"
    using add_import_record [of fs I M why ex fs'] by (simp_all add: record_path_def)
  from a all_importers_direct [OF get_recipients_Inr r(1)] r(2)
  show "(I, stored_text why) \<in> set rs" by auto
next
  assume a: "add_import fs I M why ex = Ok fs' \<and> truthy ex \<and> get_recipients fs' M = Inr rs
        \<and> the ex \<in> set (all_uids fs') \<and> read_shared fs' (the ex) = Inr sh \<and> M \<in> set sh
        \<and> I \<noteq> DESC_FILE \<and> \<not> is_file fs' (exports_dir M @ [I])
        \<and> (\<forall>x \<in> set (all_uids fs'). x \<noteq> the ex \<longrightarrow> \<not> is_file fs' (exports_dir x @ [M, I]))"
  then have r: "is_file fs' (exports_dir (the ex) @ [M, I])"
    "read_text fs' (exports_dir (the ex) @ [M, I]) = Inr (stored_text why)"
    using add_import_record [of fs I M why ex fs'] by (simp_all add: record_path_def)
  from a have g: "all_importers fs' M = Inr rs" by (simp add: get_recipients_Inr)
  from a have 1: "the ex \<in> set (all_uids fs')" and 2: "read_shared fs' (the ex) = Inr sh"
    and 3: "M \<in> set sh" and 4: "I \<noteq> DESC_FILE" and 5: "\<not> is_file fs' (exports_dir M @ [I])"
    and 6: "\<forall>x \<in> set (all_uids fs'). x \<noteq> the ex \<longrightarrow> \<not> is_file fs' (exports_dir x @ [M, I])"
    by simp_all
  from all_importers_shared [OF g 1 2 3 r(1) 4 5 6] r(2)
  show "(I, stored_text why) \<in> set rs" by auto
next
  assume a: "remove_import fs I M ex = Ok fs' \<and> get_recipients fs' M = Inr rs
        \<and> (truthy ex \<longrightarrow> \<not> is_file fs' (exports_dir M @ [I]))
        \<and> (\<forall>x \<in> set (all_uids fs'). (truthy ex \<longrightarrow> x \<noteq> the ex) \<longrightarrow>
              \<not> is_file fs' (exports_dir x @ [M, I]))
        \<and> (\<forall>imps. read_imports fs' I = Inr imps \<longrightarrow> M \<notin> fst ` set imps)"
  then have n: "\<not> is_file fs' (record_path I M ex)" using remove_import_record by blast
  from a have g: "all_importers fs' M = Inr rs" by (simp add: get_recipients_Inr)
  have d: "\<not> is_file fs' (exports_dir M @ [I])"
    using a n by (cases "truthy ex") (simp_all add: record_path_def)
  have s: "\<not> is_file fs' (exports_dir x @ [M, I])" if "x \<in> set (all_uids fs')" for x
    using a n that by (cases "truthy ex \<and> x = the ex") (auto simp: record_path_def)
  show "I \<notin> fst ` set rs"
  proof
    assume "I \<in> fst ` set rs"
    with all_importers_names [OF g] consider "is_file fs' (exports_dir M @ [I])"
      | "\<exists>x \<in> set (all_uids fs'). is_file fs' (exports_dir x @ [M, I])"
      | "\<exists>imps. read_imports fs' I = Inr imps \<and> M \<in> fst ` set imps"
      by blast
    then show False
    proof cases
      case 1
      with d show False by simp
    next
      case 2
      with s show False by blast
    next
      case 3
      with a show False by blast
    qed
  qed
next
  assume "(why = [] \<or> \<not> is_space (hd why) \<and> \<not> is_space (last why)) \<and> CHR 0x0D \<notin> set why"
  then show "stored_text why = why" by (intro stored_text_id) auto
qed

theorem edge_symmetry_witness:
  "add_import store_ab ''obj-a'' ''obj-b'' ''  needs b '' None = Ok store_direct
   \<and> get_recipients store_direct ''obj-b'' = Inr [(''obj-a'', ''needs b'')]
   \<and> (''obj-a'', stored_text ''  needs b '') \<in> set [(''obj-a'', ''needs b'')]
   \<and> add_import store_shared ''obj-a'' ''obj-b'' ''uses b'' (Some ''obj-c'') = Ok store_via
   \<and> get_recipients store_via ''obj-b'' = Inr [(''obj-a'', ''uses b'')]
   \<and> all_uids store_via = [''obj-a'', ''obj-b'', ''obj-c'']
   \<and> read_shared store_via ''obj-c'' = Inr [''obj-b'']
   \<and> (''obj-a'', stored_text ''uses b'') \<in> set [(''obj-a'', ''uses b'')]
   \<and> stored_text ''uses b'' = ''uses b''
   \<and> remove_import store_via ''obj-a'' ''obj-b'' (Some ''obj-c'') = Ok store_unlinked
   \<and> get_recipients store_unlinked ''obj-b'' = Inr []
   \<and> read_imports store_unlinked ''obj-a'' = Inr []
   \<and> ''obj-a'' \<notin> fst ` set ([] :: (string \<times> string) list)"
proof -
  have a1: "add_import store_ab ''obj-a'' ''obj-b'' ''  needs b '' None = Ok store_direct"
    unfolding store_direct_def by code_simp
  have g1: "get_recipients store_direct ''obj-b'' = Inr [(''obj-a'', ''needs b'')]"
    unfolding store_direct_def by code_simp
  have t1: "\<not> truthy None" by (simp add: truthy_def)
  from edge_symmetry [where fs = store_ab and I = "''obj-a''" and M = "''obj-b''"
      and why = "''  needs b ''" and ex = None and fs' = store_direct] a1 g1 t1
  have 1: "(''obj-a'', stored_text ''  needs b '') \<in> set [(''obj-a'', ''needs b'')]" by blast
  have a2: "add_import store_shared ''obj-a'' ''obj-b'' ''uses b'' (Some ''obj-c'') = Ok store_via"
    by code_simp
  have g2: "get_recipients store_via ''obj-b'' = Inr [(''obj-a'', ''uses b'')]" by code_simp
  have u2: "all_uids store_via = [''obj-a'', ''obj-b'', ''obj-c'']" by code_simp
  have s2: "read_shared store_via ''obj-c'' = Inr [''obj-b'']" by code_simp
  have t2: "truthy (Some ''obj-c'')" by (simp add: truthy_def)
  have d2: "''obj-a'' \<noteq> DESC_FILE" by code_simp
  have n2: "\<not> is_file store_via (exports_dir ''obj-b'' @ [''obj-a''])"
    "\<not> is_file store_via (exports_dir ''obj-a'' @ [''obj-b'', ''obj-a''])"
    "\<not> is_file store_via (exports_dir ''obj-b'' @ [''obj-b'', ''obj-a''])" by code_simp+
  from edge_symmetry [where fs = store_shared and I = "''obj-a''" and M = "''obj-b''"
      and why = "''uses b''" and ex = "Some ''obj-c''" and fs' = store_via and sh = "[''obj-b'']"]
    a2 g2 u2 s2 t2 d2 n2
  have 2: "(''obj-a'', stored_text ''uses b'') \<in> set [(''obj-a'', ''uses b'')]"
    and 3: "stored_text ''uses b'' = ''uses b''"
    by (auto simp: is_space_def)
  have a3: "remove_import store_via ''obj-a'' ''obj-b'' (Some ''obj-c'') = Ok store_unlinked"
    unfolding store_unlinked_def by code_simp
  have g3: "get_recipients store_unlinked ''obj-b'' = Inr []"
    unfolding store_unlinked_def by code_simp
  have u3: "all_uids store_unlinked = [''obj-a'', ''obj-b'', ''obj-c'']"
    unfolding store_unlinked_def by code_simp
  have i3: "read_imports store_unlinked ''obj-a'' = Inr []"
    unfolding store_unlinked_def by code_simp
  have n3: "\<not> is_file store_unlinked (exports_dir ''obj-b'' @ [''obj-a''])"
    "\<not> is_file store_unlinked (exports_dir ''obj-a'' @ [''obj-b'', ''obj-a''])"
    "\<not> is_file store_unlinked (exports_dir ''obj-b'' @ [''obj-b'', ''obj-a''])"
    unfolding store_unlinked_def by code_simp+
  from edge_symmetry [where fs = store_via and I = "''obj-a''" and M = "''obj-b''"
      and ex = "Some ''obj-c''" and fs' = store_unlinked and rs = "[]"]
    a3 g3 u3 i3 n3 t2
  have 4: "''obj-a'' \<notin> fst ` set ([] :: (string \<times> string) list)" by auto
  from a1 g1 1 a2 g2 u2 s2 2 3 a3 g3 i3 4 show ?thesis by blast
qed

text \<open>
  C1 (as stated) fails: after \<open>obj-a\<close> has imported \<open>obj-b\<close> through the exporter \<open>obj-c\<close>, the
  recipients of the exporter \<open>obj-c\<close> do not contain \<open>obj-a\<close>; those of \<open>obj-b\<close> do.
\<close>

theorem edge_symmetry_counterexample:
  "add_import store_shared ''obj-a'' ''obj-b'' ''uses b'' (Some ''obj-c'') = Ok store_via
   \<and> get_recipients store_via ''obj-c'' = Inr []
   \<and> get_recipients store_via ''obj-b'' = Inr [(''obj-a'', ''uses b'')]"
  by code_simp

text \<open>Nor does a reason with white space around it come back as it was given.\<close>

lemma edge_symmetry_whitespace:
  "get_recipients store_direct ''obj-b'' = Inr [(''obj-a'', ''needs b'')]
   \<and> (''obj-a'', ''  needs b '') \<notin> set [(''obj-a'', ''needs b'')]"
  unfolding store_direct_def by code_simp

section \<open>C5: cycle detection\<close>

text \<open>C5 (as stated, for every cycle present in the graph) fails: in \<open>store_two_cycles\<close> the
  chain obj-a, obj-c, obj-a is a cycle of import edges, and the only cycle reported is
  obj-a, obj-b, obj-c, obj-a.\<close>

theorem cycle_detection_counterexample:
  "detect_cycles store_two_cycles = Some (Inr [[''obj-a'', ''obj-b'', ''obj-c'', ''obj-a'']])
   \<and> is_cycle store_two_cycles [''obj-a'', ''obj-c'', ''obj-a'']
   \<and> [''obj-a'', ''obj-c'', ''obj-a''] \<noteq> [''obj-a'', ''obj-b'', ''obj-c'', ''obj-a'']"
  by code_simp

text \<open>C5 (amended): \<open>detect_cycles\<close> always returns (the search never runs out of its bound).
  Every list it reports is a cycle of import edges among the enumerated entities, first node
  repeated at the end; it reports nothing exactly when the enumerated entities contain no cycle
  of import edges. On the edges a to b, b to c, c to a it reports the one cycle a, b, c, a, and
  on three objects without edges it reports none.\<close>

theorem cycle_detection:
  "detect_cycles fs \<noteq> None
   \<and> (detect_cycles fs = Some (Inr cs) \<longrightarrow>
        (\<forall>c \<in> set cs. is_cycle fs c \<and> set c \<subseteq> set (all_uids fs))
        \<and> (cs = [] \<longleftrightarrow> \<not> (\<exists>p. is_cycle fs p \<and> set p \<subseteq> set (all_uids fs))))
   \<and> detect_cycles store_triangle = Some (Inr [[''obj-a'', ''obj-b'', ''obj-c'', ''obj-a'']])
   \<and> detect_cycles store_abc = Some (Inr [])"
proof (intro conjI impI)
  show "detect_cycles fs \<noteq> None" by (rule detect_cycles_total)
next
  assume "detect_cycles fs = Some (Inr cs)"
  then show "\<forall>c \<in> set cs. is_cycle fs c \<and> set c \<subseteq> set (all_uids fs)"
    using detect_cycles_sound by blast
next
  assume d: "detect_cycles fs = Some (Inr cs)"
  show "cs = [] \<longleftrightarrow> \<not> (\<exists>p. is_cycle fs p \<and> set p \<subseteq> set (all_uids fs))"
  proof
    assume "cs = []"
    with d detect_cycles_complete show "\<not> (\<exists>p. is_cycle fs p \<and> set p \<subseteq> set (all_uids fs))"
      by blast
  next
    assume n: "\<not> (\<exists>p. is_cycle fs p \<and> set p \<subseteq> set (all_uids fs))"
    show "cs = []"
    proof (cases cs)
      case Nil
      then show ?thesis .
    next
      case (Cons c r)
      with detect_cycles_sound [OF d, of c] n show ?thesis by auto
    qed
  qed
next
  show "detect_cycles store_triangle = Some (Inr [[''obj-a'', ''obj-b'', ''obj-c'', ''obj-a'']])"
    by (rule store_triangle_cycles)
next
  show "detect_cycles store_abc = Some (Inr [])" by (rule store_abc_cycles)
qed

theorem cycle_detection_witness:
  "detect_cycles store_triangle = Some (Inr [[''obj-a'', ''obj-b'', ''obj-c'', ''obj-a'']])
   \<and> is_cycle store_triangle [''obj-a'', ''obj-b'', ''obj-c'', ''obj-a'']
   \<and> set [''obj-a'', ''obj-b'', ''obj-c'', ''obj-a''] \<subseteq> set (all_uids store_triangle)"
  using cycle_detection [of store_triangle "[[''obj-a'', ''obj-b'', ''obj-c'', ''obj-a'']]"]
  by simp

end
